theory Spec2Isabelle
  imports Main "HOL-Library.Sublist"
begin

section \<open>The graph library as used by \<open>plot_nets\<close>\<close>

text \<open>
  \<open>plot_nets\<close> (src/gplugins/klayout/plot_nets.py) works on a \<open>networkx.Graph\<close>: an
  undirected simple graph (self-loops allowed, no parallel edges) whose nodes are string
  labels.  The library keeps the graph as a dictionary from each node to the dictionary of
  its neighbours; both dictionaries iterate in insertion order.  The model is that
  dictionary of dictionaries, as an association list in iteration order: one entry per
  node, holding the node's neighbours in iteration order.  Node and edge attributes play no
  part in the reduction and are left out.  The operations below are the calls that
  \<open>plot_nets\<close> makes on the graph, each written as the library carries it out on the two
  dictionaries.
\<close>

type_synonym node = string

type_synonym graph = "(node \<times> node list) list"

text \<open>
  The exceptions: \<open>NetworkXError\<close> of the graph library, \<open>ModuleNotFoundError\<close> of a
  failed import, \<open>UserWarning msg cause\<close> for \<open>raise UserWarning(msg) from cause\<close>, and
  \<open>CollaboratorError\<close> for whatever the netlist reader, another import failure or a call
  of the plotting library raises.
\<close>

datatype error =
    NetworkXError
  | ModuleNotFoundError
  | UserWarning string error
  | CollaboratorError string

text \<open>\<open>G.nodes\<close>, in iteration order.\<close>

abbreviation nodes_of :: "graph \<Rightarrow> node list" where
  "nodes_of g \<equiv> map fst g"

text \<open>\<open>G.adj[n]\<close>, the neighbours of \<open>n\<close> (none for a label that is not a node).\<close>

definition adj :: "graph \<Rightarrow> node \<Rightarrow> node list" where
  "adj g n = (case map_of g n of None \<Rightarrow> [] | Some ns \<Rightarrow> ns)"

text \<open>
  The representation invariant that the library maintains: node keys are unique, the
  neighbour keys of each node are unique, and adjacency is symmetric (so every neighbour
  is itself a node).
\<close>

definition wf_graph :: "graph \<Rightarrow> bool" where
  "wf_graph g =
     (distinct (map fst g) \<and>
      (\<forall>(n, ns) \<in> set g. distinct ns \<and> (\<forall>v \<in> set ns. n \<in> set (adj g v))))"

text \<open>\<open>G.degree[n]\<close>: the number of neighbours of \<open>n\<close>, a self-loop counting twice.\<close>

definition degree_of :: "graph \<Rightarrow> node \<Rightarrow> nat" where
  "degree_of g n = length (adj g n) + (if n \<in> set (adj g n) then 1 else 0)"

text \<open>
  \<open>G.degree\<close>: iterates the nodes in order and yields \<open>(n, len(nbrs) + (n in nbrs))\<close>, a
  self-loop counting twice.
\<close>

definition degree_view :: "graph \<Rightarrow> (node \<times> nat) list" where
  "degree_view g = map (\<lambda>(n, nbrs). (n, length nbrs + (if n \<in> set nbrs then 1 else 0))) g"

text \<open>
  \<open>G.edges(node)\<close> for a node of the graph: one pair \<open>(node, nbr)\<close> per neighbour of
  \<open>node\<close>, in the order of its neighbour dictionary (a self-loop gives the pair
  \<open>(node, node)\<close> once).  \<open>plot_nets\<close> calls it only with a node that \<open>G.degree\<close> of the
  same graph has just yielded.
\<close>

definition edges_of :: "graph \<Rightarrow> node \<Rightarrow> (node \<times> node) list" where
  "edges_of g n = map (Pair n) (adj g n)"

text \<open>\<open>G.add_node(n)\<close>: a new node goes to the end of the node order.\<close>

definition add_node :: "graph \<Rightarrow> node \<Rightarrow> graph" where
  "add_node g n = (if n \<in> set (map fst g) then g else g @ [(n, [])])"

text \<open>
  \<open>adj[u][v] = datadict\<close>: an existing key keeps its place, a new one goes to the end.
\<close>

definition set_nbr :: "graph \<Rightarrow> node \<Rightarrow> node \<Rightarrow> graph" where
  "set_nbr g u v =
     map (\<lambda>(n, ns). if n = u then (n, if v \<in> set ns then ns else ns @ [v]) else (n, ns)) g"

text \<open>
  \<open>G.add_edge(u, v)\<close>: adds the end points that are not nodes yet, then sets
  \<open>adj[u][v]\<close> and \<open>adj[v][u]\<close>.
\<close>

definition add_edge :: "graph \<Rightarrow> node \<Rightarrow> node \<Rightarrow> graph" where
  "add_edge g u v = set_nbr (set_nbr (add_node (add_node g u) v) u v) v u"

text \<open>\<open>del adj[u][n]\<close>; by the symmetry of the adjacency the key \<open>n\<close> is there whenever
  \<open>remove_node\<close> gets to it.\<close>

definition del_nbr :: "graph \<Rightarrow> node \<Rightarrow> node \<Rightarrow> graph" where
  "del_nbr g u n = map (\<lambda>(m, ns). if m = u then (m, removeAll n ns) else (m, ns)) g"

text \<open>
  \<open>G.remove_node(n)\<close>: raises \<open>NetworkXError\<close> when \<open>n\<close> is not a node; otherwise
  deletes \<open>n\<close> from the neighbour dictionary of each of its neighbours (its own included,
  for a self-loop) and then deletes the entry of \<open>n\<close>.
\<close>

definition remove_node :: "graph \<Rightarrow> node \<Rightarrow> error + graph" where
  "remove_node g n =
     (case map_of g n of
        None \<Rightarrow> Inl NetworkXError
      | Some nbrs \<Rightarrow> Inr (filter (\<lambda>(m, ns). m \<noteq> n) (fold (\<lambda>u t. del_nbr t u n) nbrs g)))"

text \<open>
  \<open>G.copy()\<close>: a fresh graph to which the library adds the nodes in order
  (\<open>add_nodes_from\<close>) and then every pair \<open>(u, v)\<close> of the adjacency dictionaries
  (\<open>add_edges_from\<close>).
\<close>

definition all_adjacencies :: "graph \<Rightarrow> (node \<times> node) list" where
  "all_adjacencies g = concat (map (\<lambda>(u, ns). map (Pair u) ns) g)"

definition copy :: "graph \<Rightarrow> graph" where
  "copy g =
     fold (\<lambda>(u, v) t. add_edge t u v) (all_adjacencies g)
       (fold (\<lambda>n t. add_node t n) (map fst g) [])"

text \<open>\<open>itertools.combinations(xs, r=2)\<close>: the pairs \<open>(xs[i], xs[j])\<close> with \<open>i < j\<close>,
  in lexicographic order of the positions.\<close>

fun combinations2 :: "'a list \<Rightarrow> ('a \<times> 'a) list" where
  "combinations2 [] = []"
| "combinations2 (x # xs) = map (Pair x) xs @ combinations2 xs"

section \<open>The reduction loop of \<open>plot_nets\<close>\<close>

text \<open>
  \<open>_removal_condition(node, degree)\<close>: \<open>degree == 2 and any(e in node for e in
  nodes_to_reduce)\<close>, where \<open>e in node\<close> on strings is the substring test.
\<close>

definition removal_condition :: "string list \<Rightarrow> node \<Rightarrow> nat \<Rightarrow> bool" where
  "removal_condition nodes_to_reduce node degree =
     (degree = 2 \<and> list_ex (\<lambda>e. sublist e node) nodes_to_reduce)"

text \<open>The condition of the \<open>while\<close> loop.\<close>

definition loop_cond :: "string list \<Rightarrow> graph \<Rightarrow> bool" where
  "loop_cond nodes_to_reduce G =
     list_ex (\<lambda>(node, degree). removal_condition nodes_to_reduce node degree) (degree_view G)"

text \<open>The node at which the \<open>for\<close> loop stops: the first of the degree view that
  satisfies the removal condition.\<close>

definition first_removable :: "string list \<Rightarrow> graph \<Rightarrow> (node \<times> nat) option" where
  "first_removable nodes_to_reduce G =
     find (\<lambda>(node, degree). removal_condition nodes_to_reduce node degree) (degree_view G)"

text \<open>
  \<open>node_pairs_to_connect\<close> for the chosen node: the 2-combinations of
  \<open>connected_to_node = [e[1] for e in G_connectivity.edges(node)]\<close>.
\<close>

definition node_pairs_to_connect :: "graph \<Rightarrow> node \<Rightarrow> (node \<times> node) list" where
  "node_pairs_to_connect G node =
     (let connected_to_node = map snd (edges_of G node) in combinations2 connected_to_node)"

text \<open>
  The body of the \<open>while\<close> loop, returning the new value of \<open>G_connectivity\<close>: copy
  the graph, and at the first node that satisfies the removal condition add to the copy an
  edge for every pair of its neighbours, remove the node from the copy, and leave the
  \<open>for\<close> loop.
\<close>

definition loop_body :: "string list \<Rightarrow> graph \<Rightarrow> error + graph" where
  "loop_body nodes_to_reduce G =
     (let G_tmp = copy G in
      case first_removable nodes_to_reduce G of
        None \<Rightarrow> Inr G_tmp
      | Some (node, degree) \<Rightarrow>
          remove_node
            (fold (\<lambda>pair t. add_edge t (fst pair) (snd pair)) (node_pairs_to_connect G node)
               G_tmp)
            node)"

text \<open>
  The \<open>while\<close> loop.  \<open>None\<close> stands for a loop that never ends, \<open>Some (Inl e)\<close> for
  an exception, \<open>Some (Inr G)\<close> for the graph the loop ends with.
\<close>

partial_function (option) reduce_loop :: "string list \<Rightarrow> graph \<Rightarrow> (error + graph) option" where
  "reduce_loop nodes_to_reduce G =
     (if loop_cond nodes_to_reduce G
      then (case loop_body nodes_to_reduce G of
              Inl e \<Rightarrow> Some (Inl e)
            | Inr G' \<Rightarrow> reduce_loop nodes_to_reduce G')
      else Some (Inr G))"

declare reduce_loop.simps [code]

text \<open>
  The same loop cut off after \<open>k\<close> iterations: \<open>None\<close> when the loop condition still
  holds after \<open>k\<close> runs of the body.  It only serves to count iterations.
\<close>

fun reduce_iters :: "nat \<Rightarrow> string list \<Rightarrow> graph \<Rightarrow> (error + graph) option" where
  "reduce_iters 0 nodes_to_reduce G =
     (if loop_cond nodes_to_reduce G then None else Some (Inr G))"
| "reduce_iters (Suc k) nodes_to_reduce G =
     (if loop_cond nodes_to_reduce G
      then (case loop_body nodes_to_reduce G of
              Inl e \<Rightarrow> Some (Inl e)
            | Inr G' \<Rightarrow> reduce_iters k nodes_to_reduce G')
      else Some (Inr G))"

text \<open>
  \<open>iterates nodes_to_reduce G H\<close>: the variable \<open>G_connectivity\<close> holds \<open>H\<close> at the
  head of the \<open>while\<close> loop at some moment of the loop started with \<open>G\<close>.
\<close>

inductive iterates :: "string list \<Rightarrow> graph \<Rightarrow> graph \<Rightarrow> bool"
  for nodes_to_reduce :: "string list" and G :: graph where
  iterates_start: "iterates nodes_to_reduce G G"
| iterates_step:
    "iterates nodes_to_reduce G H \<Longrightarrow> loop_cond nodes_to_reduce H \<Longrightarrow>
     loop_body nodes_to_reduce H = Inr H' \<Longrightarrow> iterates nodes_to_reduce G H'"

text \<open>The nodes that carry a self-loop.\<close>

definition self_loops :: "graph \<Rightarrow> node list" where
  "self_loops g = filter (\<lambda>n. n \<in> set (adj g n)) (nodes_of g)"

text \<open>Helpers of the proofs: a graph of isolated nodes, and adding a list of edges.\<close>

definition isolated :: "node list \<Rightarrow> graph" where
  "isolated ns = map (\<lambda>n. (n, [])) ns"

abbreviation add_edges :: "(node \<times> node) list \<Rightarrow> graph \<Rightarrow> graph" where
  "add_edges es g \<equiv> fold (\<lambda>pair t. add_edge t (fst pair) (snd pair)) es g"

section \<open>The loop on graph objects\<close>

text \<open>
  In the source the graphs are mutable objects: \<open>copy\<close> allocates a new object, and
  \<open>add_edge\<close> and \<open>remove_node\<close> update the object they are called on.  The store
  holds the graph objects; an address is a position in it, and allocation appends.  A
  variable of the program always holds the address of an allocated object, so the
  addresses passed in are below the length of the store.
\<close>

type_synonym addr = nat

type_synonym store = "graph list"

definition copy_obj :: "store \<Rightarrow> addr \<Rightarrow> store \<times> addr" where
  "copy_obj h a = (h @ [copy (h ! a)], length h)"

definition add_edge_obj :: "store \<Rightarrow> addr \<Rightarrow> node \<Rightarrow> node \<Rightarrow> store" where
  "add_edge_obj h a u v = h[a := add_edge (h ! a) u v]"

definition remove_node_obj :: "store \<Rightarrow> addr \<Rightarrow> node \<Rightarrow> error + store" where
  "remove_node_obj h a n =
     (case remove_node (h ! a) n of Inl e \<Rightarrow> Inl e | Inr g \<Rightarrow> Inr (h[a := g]))"

text \<open>
  The body of the \<open>while\<close> loop on the store: \<open>G\<close> is the address held by
  \<open>G_connectivity\<close>, the result is the new store and the address assigned to
  \<open>G_connectivity\<close> at the end of the body.
\<close>

definition loop_body_obj :: "string list \<Rightarrow> store \<times> addr \<Rightarrow> error + store \<times> addr" where
  "loop_body_obj nodes_to_reduce = (\<lambda>(h, G).
     (case copy_obj h G of (h1, G_tmp) \<Rightarrow>
      (case first_removable nodes_to_reduce (h1 ! G) of
        None \<Rightarrow> Inr (h1, G_tmp)
      | Some (node, degree) \<Rightarrow>
          (case remove_node_obj
                  (fold (\<lambda>pair t. add_edge_obj t G_tmp (fst pair) (snd pair))
                     (node_pairs_to_connect (h1 ! G) node) h1)
                  G_tmp node of
             Inl e \<Rightarrow> Inl e
           | Inr h2 \<Rightarrow> Inr (h2, G_tmp)))))"

partial_function (option) reduce_loop_obj ::
    "string list \<Rightarrow> store \<times> addr \<Rightarrow> (error + store \<times> addr) option" where
  "reduce_loop_obj nodes_to_reduce s =
     (if loop_cond nodes_to_reduce (fst s ! snd s)
      then (case loop_body_obj nodes_to_reduce s of
              Inl e \<Rightarrow> Some (Inl e)
            | Inr s' \<Rightarrow> reduce_loop_obj nodes_to_reduce s')
      else Some (Inr s))"

declare reduce_loop_obj.simps [code]

section \<open>\<open>plot_nets\<close>\<close>

text \<open>The parameters of \<open>plot_nets\<close>.\<close>

record plot_args =
  filepath :: string
  fully_connected :: bool
  interactive :: bool
  include_labels :: bool
  only_most_complex :: bool
  nodes_to_reduce :: "string list option"

text \<open>
  The interactive viewer is the library \<open>pyvis\<close>, which is not part of the source:
  whether one of its calls returns or raises is a parameter.  For each of the four calls
  that \<open>plot_nets\<close> makes, \<open>None\<close> says that the call returns and \<open>Some e\<close> that it
  raises \<open>e\<close>; the outcome may depend on the arguments of the call, and for \<open>show\<close>
  also on the graph that \<open>from_nx\<close> has loaded.
  \<^item> \<open>Network_call select_menu filter_menu\<close>: \<open>Network(select_menu=\<dots>, filter_menu=\<dots>)\<close>;
  \<^item> \<open>show_buttons_call\<close>: \<open>net.show_buttons()\<close>;
  \<^item> \<open>from_nx_call G\<close>: \<open>net.from_nx(G)\<close>;
  \<^item> \<open>show_call G name\<close>: \<open>net.show(name)\<close>, which writes the file \<open>name\<close>.
\<close>

record pyvis_calls =
  Network_call :: "bool \<Rightarrow> bool \<Rightarrow> error option"
  show_buttons_call :: "error option"
  from_nx_call :: "graph \<Rightarrow> error option"
  show_call :: "graph \<Rightarrow> string \<Rightarrow> error option"

text \<open>
  What \<open>from pyvis.network import Network\<close> does: the module is loaded (and its calls
  behave as given), or the import raises \<open>ModuleNotFoundError\<close>, or it raises another
  exception.
\<close>

datatype import_outcome = Module_loaded pyvis_calls | Module_not_found | Import_raises error

text \<open>
  What has been shown when \<open>plot_nets\<close> returns.  \<open>Html_page\<close>: the calls
  \<open>Network(select_menu, filter_menu)\<close>, \<open>show_buttons()\<close>, \<open>from_nx(G)\<close> and
  \<open>show(name)\<close> have returned, the last having written the file \<open>name\<close>.
  \<open>Figure\<close>: \<open>plt.figure(figsize)\<close>,
  \<open>nx.draw(G, with_labels, node_size, node_color, font_size)\<close>, \<open>plt.title(title)\<close> and
  \<open>plt.show()\<close>.
\<close>

datatype display =
    Html_page (file_name: string) (select_menu: bool) (filter_menu: bool) (buttons: bool)
      (page_graph: graph)
  | Figure (figsize: "nat \<times> nat") (figure_graph: graph) (with_labels: bool) (node_size: nat)
      (node_color: string) (font_size: nat) (title: string)

text \<open>\<open>if nodes_to_reduce:\<close> and the loop it guards.\<close>

definition reduction_phase :: "string list option \<Rightarrow> graph \<Rightarrow> (error + graph) option" where
  "reduction_phase ntr G =
     (case ntr of
        None \<Rightarrow> Some (Inr G)
      | Some xs \<Rightarrow> if xs \<noteq> [] then reduce_loop xs G else Some (Inr G))"

text \<open>
  The plotting part of \<open>plot_nets\<close>.  On the interactive path only
  \<open>ModuleNotFoundError\<close> of the import is caught; the four calls of \<open>pyvis\<close> run in
  the order of the source, and the first one that raises ends \<open>plot_nets\<close> with its
  exception, before any later call is made.
\<close>

definition render :: "import_outcome \<Rightarrow> bool \<Rightarrow> graph \<Rightarrow> error + display" where
  "render pyvis is_interactive G =
     (if is_interactive then
        (case pyvis of
           Module_not_found \<Rightarrow>
             Inl (UserWarning ''You need to `pip install pyvis<=0.3.1` or `gplugins[klayout]`''
                    ModuleNotFoundError)
         | Import_raises e \<Rightarrow> Inl e
         | Module_loaded net \<Rightarrow>
             (case Network_call net True True of
                Some e \<Rightarrow> Inl e
              | None \<Rightarrow>
                  (case show_buttons_call net of
                     Some e \<Rightarrow> Inl e
                   | None \<Rightarrow>
                       (case from_nx_call net G of
                          Some e \<Rightarrow> Inl e
                        | None \<Rightarrow>
                            (case show_call net G ''connectivity.html'' of
                               Some e \<Rightarrow> Inl e
                             | None \<Rightarrow>
                                 Inr (Html_page ''connectivity.html'' True True True G))))))
      else Inr (Figure (8, 6) G True 2000 ''lightpink'' 12 ''Connectivity''))"

text \<open>
  \<open>plot_nets\<close>.  \<open>networkx_from_file\<close> is imported from another module and is a
  parameter here: it gets all the arguments of the call (\<open>**locals()\<close>) and returns the
  graph or raises.  The result is what is shown, or the exception raised; \<open>None\<close> stands
  for a reduction loop that never ends.
\<close>

definition plot_nets ::
    "(plot_args \<Rightarrow> error + graph) \<Rightarrow> import_outcome \<Rightarrow> plot_args \<Rightarrow> (error + display) option" where
  "plot_nets networkx_from_file pyvis args =
     (case networkx_from_file args of
        Inl e \<Rightarrow> Some (Inl e)
      | Inr G_connectivity \<Rightarrow>
          (case reduction_phase (nodes_to_reduce args) G_connectivity of
             None \<Rightarrow> None
           | Some (Inl e) \<Rightarrow> Some (Inl e)
           | Some (Inr G') \<Rightarrow> Some (render pyvis (interactive args) G')))"

text \<open>
  Inputs for the examples: a \<open>networkx_from_file\<close> that returns the graph \<open>G\<close>, a
  \<open>pyvis\<close> all of whose calls return, and one whose \<open>show\<close> raises \<open>e\<close> after the
  other calls have returned.
\<close>

definition reader_returning :: "graph \<Rightarrow> plot_args \<Rightarrow> error + graph" where
  "reader_returning G args = Inr G"

definition pyvis_returns :: pyvis_calls where
  "pyvis_returns =
     \<lparr>Network_call = (\<lambda>select_menu filter_menu. None), show_buttons_call = None,
      from_nx_call = (\<lambda>G. None), show_call = (\<lambda>G name. None)\<rparr>"

definition pyvis_show_raises :: "error \<Rightarrow> pyvis_calls" where
  "pyvis_show_raises e =
     \<lparr>Network_call = (\<lambda>select_menu filter_menu. None), show_buttons_call = None,
      from_nx_call = (\<lambda>G. None), show_call = (\<lambda>G name. Some e)\<rparr>"

section \<open>Properties of the graph operations\<close>

subsection \<open>Association lists\<close>

lemma map_of_Some_node: "map_of g n = Some ns \<Longrightarrow> n \<in> fst ` set g"
  by (metis domI dom_map_of_conv_image_fst)

lemma map_of_None_node: "map_of g n = None \<longleftrightarrow> n \<notin> fst ` set g"
  by (simp add: map_of_eq_None_iff)

lemma adj_entry: "distinct (nodes_of g) \<Longrightarrow> (n, ns) \<in> set g \<Longrightarrow> adj g n = ns"
  by (simp add: adj_def)

lemma adj_no_node: "n \<notin> set (nodes_of g) \<Longrightarrow> adj g n = []"
  by (simp add: adj_def map_of_eq_None_iff[THEN iffD2])

lemma adj_nonempty_node: "v \<in> set (adj g n) \<Longrightarrow> n \<in> set (nodes_of g)"
  using adj_no_node[of n g] by (cases "n \<in> set (nodes_of g)") auto

lemma adj_in_graph: "n \<in> set (nodes_of g) \<Longrightarrow> (n, adj g n) \<in> set g"
  by (auto simp: adj_def dest: map_of_SomeD split: option.splits simp: map_of_eq_None_iff)

lemma wf_graph_iff:
  "wf_graph g \<longleftrightarrow>
     distinct (nodes_of g) \<and> (\<forall>n. distinct (adj g n)) \<and>
     (\<forall>n v. v \<in> set (adj g n) \<longrightarrow> n \<in> set (adj g v))"
proof
  assume wf: "wf_graph g"
  then have d: "distinct (nodes_of g)" by (simp add: wf_graph_def)
  have "distinct (adj g n)" for n
  proof (cases "n \<in> set (nodes_of g)")
    case True
    then have "(n, adj g n) \<in> set g" by (rule adj_in_graph)
    with wf show ?thesis by (auto simp: wf_graph_def)
  next
    case False
    then show ?thesis by (simp add: adj_no_node)
  qed
  moreover have "n \<in> set (adj g v)" if "v \<in> set (adj g n)" for n v
  proof -
    from that have "n \<in> set (nodes_of g)" by (rule adj_nonempty_node)
    then have "(n, adj g n) \<in> set g" by (rule adj_in_graph)
    with wf that show ?thesis by (auto simp: wf_graph_def)
  qed
  ultimately show "distinct (nodes_of g) \<and> (\<forall>n. distinct (adj g n)) \<and>
     (\<forall>n v. v \<in> set (adj g n) \<longrightarrow> n \<in> set (adj g v))"
    using d by blast
next
  assume a: "distinct (nodes_of g) \<and> (\<forall>n. distinct (adj g n)) \<and>
     (\<forall>n v. v \<in> set (adj g n) \<longrightarrow> n \<in> set (adj g v))"
  show "wf_graph g"
    unfolding wf_graph_def
  proof (intro conjI ballI)
    show "distinct (nodes_of g)" using a by simp
  next
    fix x assume x: "x \<in> set g"
    obtain n ns where [simp]: "x = (n, ns)" by (cases x)
    from a x have "adj g n = ns" by (simp add: adj_entry)
    with a show "case x of (n, ns) \<Rightarrow> distinct ns \<and> (\<forall>v\<in>set ns. n \<in> set (adj g v))"
      by auto
  qed
qed

lemma wf_distinct_nodes: "wf_graph g \<Longrightarrow> distinct (nodes_of g)"
  by (simp add: wf_graph_iff)

lemma wf_distinct_adj: "wf_graph g \<Longrightarrow> distinct (adj g n)"
  by (simp add: wf_graph_iff)

lemma wf_sym: "wf_graph g \<Longrightarrow> v \<in> set (adj g n) \<Longrightarrow> n \<in> set (adj g v)"
  by (simp add: wf_graph_iff)

lemma wf_adj_node: "wf_graph g \<Longrightarrow> v \<in> set (adj g n) \<Longrightarrow> v \<in> set (nodes_of g)"
  by (meson adj_nonempty_node wf_sym)

subsection \<open>Updating the entries of a graph\<close>

lemma nodes_map_entries [simp]: "nodes_of (map (\<lambda>(k, x). (k, f k x)) g) = nodes_of g"
  by (induction g) auto

lemma map_of_map_entries:
  "map_of (map (\<lambda>(k, x). (k, f k x)) g) k = map_option (f k) (map_of g k)"
  by (induction g) auto

lemma set_nbr_alt:
  "set_nbr g u v = map (\<lambda>(k, x). (k, if k = u then (if v \<in> set x then x else x @ [v]) else x)) g"
  by (auto simp: set_nbr_def)

lemma del_nbr_alt:
  "del_nbr g u n = map (\<lambda>(k, x). (k, if k = u then removeAll n x else x)) g"
  by (auto simp: del_nbr_def)

lemma nodes_set_nbr [simp]: "nodes_of (set_nbr g u v) = nodes_of g"
  unfolding set_nbr_alt by (rule nodes_map_entries)

lemma nodes_del_nbr [simp]: "nodes_of (del_nbr g u n) = nodes_of g"
  unfolding del_nbr_alt by (rule nodes_map_entries)

lemma adj_set_nbr:
  "adj (set_nbr g u v) m =
     (if m = u \<and> u \<in> set (nodes_of g)
      then (if v \<in> set (adj g u) then adj g u else adj g u @ [v])
      else adj g m)"
  unfolding set_nbr_alt adj_def map_of_map_entries
  by (auto split: option.splits dest: map_of_Some_node simp: map_of_None_node[symmetric])

lemma adj_del_nbr:
  "adj (del_nbr g u n) m = (if m = u then removeAll n (adj g u) else adj g m)"
  unfolding del_nbr_alt adj_def map_of_map_entries
  by (auto split: option.splits)

lemma nodes_add_node:
  "nodes_of (add_node g n) = (if n \<in> set (nodes_of g) then nodes_of g else nodes_of g @ [n])"
  by (simp add: add_node_def)

lemma adj_add_node [simp]: "adj (add_node g n) m = adj g m"
  by (auto simp: add_node_def adj_def map_of_None_node[symmetric] split: option.splits if_splits)

lemma distinct_add_node: "distinct (nodes_of g) \<Longrightarrow> distinct (nodes_of (add_node g n))"
  by (simp add: nodes_add_node)

subsection \<open>\<open>add_edge\<close>\<close>

lemma set_nodes_add_edge: "set (nodes_of (add_edge g u v)) = set (nodes_of g) \<union> {u, v}"
  by (auto simp: add_edge_def nodes_add_node)

lemma nodes_add_edge:
  "u \<in> set (nodes_of g) \<Longrightarrow> v \<in> set (nodes_of g) \<Longrightarrow> nodes_of (add_edge g u v) = nodes_of g"
  by (simp add: add_edge_def nodes_add_node)

lemma distinct_nodes_add_edge:
  "distinct (nodes_of g) \<Longrightarrow> distinct (nodes_of (add_edge g u v))"
  by (simp add: add_edge_def distinct_add_node)

lemma set_adj_add_edge:
  "set (adj (add_edge g u v) m) =
     set (adj g m) \<union> (if m = u then {v} else {}) \<union> (if m = v then {u} else {})"
  by (auto simp: add_edge_def adj_set_nbr nodes_add_node)

lemma distinct_adj_add_edge:
  "distinct (adj g m) \<Longrightarrow> distinct (adj (add_edge g u v) m)"
  by (auto simp: add_edge_def adj_set_nbr nodes_add_node)

lemma wf_add_edge: "wf_graph g \<Longrightarrow> wf_graph (add_edge g u v)"
  unfolding wf_graph_iff
  by (auto simp: distinct_nodes_add_edge distinct_adj_add_edge set_adj_add_edge split: if_splits)

subsection \<open>Adding a list of edges\<close>

lemma wf_add_edges: "wf_graph g \<Longrightarrow> wf_graph (add_edges es g)"
  by (induction es arbitrary: g) (auto simp: wf_add_edge)

lemma nodes_add_edges:
  "\<forall>(u, v) \<in> set es. u \<in> set (nodes_of g) \<and> v \<in> set (nodes_of g) \<Longrightarrow>
   nodes_of (add_edges es g) = nodes_of g"
proof (induction es arbitrary: g)
  case Nil
  then show ?case by simp
next
  case (Cons e es)
  obtain u v where e: "e = (u, v)" by (cases e)
  from Cons.prems e have uv: "u \<in> set (nodes_of g)" "v \<in> set (nodes_of g)" by auto
  then have n: "nodes_of (add_edge g u v) = nodes_of g" by (rule nodes_add_edge)
  have "nodes_of (add_edges es (add_edge g u v)) = nodes_of (add_edge g u v)"
    by (rule Cons.IH) (use Cons.prems n in auto)
  with n e show ?case by simp
qed

lemma set_adj_add_edges:
  "set (adj (add_edges es g) m) =
     set (adj g m) \<union> {v. (m, v) \<in> set es \<or> (v, m) \<in> set es}"
proof (induction es arbitrary: g)
  case Nil
  then show ?case by simp
next
  case (Cons e es)
  obtain u v where e: "e = (u, v)" by (cases e)
  show ?case
    unfolding e by (simp add: Cons.IH set_adj_add_edge) auto
qed

lemma fold_case_prod_add_edge:
  "fold (\<lambda>(u, v) t. add_edge t u v) es g = add_edges es g"
  by (simp add: case_prod_unfold)

subsection \<open>\<open>copy\<close>\<close>

lemma fold_add_node_distinct:
  "distinct (nodes_of g @ ns) \<Longrightarrow>
   fold (\<lambda>n t. add_node t n) ns g = g @ isolated ns"
  by (induction ns arbitrary: g) (auto simp: add_node_def isolated_def)

lemma adj_isolated [simp]: "adj (isolated ns) m = []"
  by (induction ns) (auto simp: adj_def isolated_def)

lemma nodes_isolated [simp]: "nodes_of (isolated ns) = ns"
  by (simp add: isolated_def comp_def)

lemma wf_isolated: "distinct ns \<Longrightarrow> wf_graph (isolated ns)"
  by (simp add: wf_graph_iff)

lemma in_all_adjacencies:
  "(u, v) \<in> set (all_adjacencies g) \<longleftrightarrow> (\<exists>ns. (u, ns) \<in> set g \<and> v \<in> set ns)"
  by (auto simp: all_adjacencies_def)

lemma in_all_adjacencies_wf:
  assumes "distinct (nodes_of g)"
  shows "(u, v) \<in> set (all_adjacencies g) \<longleftrightarrow> v \<in> set (adj g u)"
proof
  assume "(u, v) \<in> set (all_adjacencies g)"
  then obtain ns where "(u, ns) \<in> set g" "v \<in> set ns" by (auto simp: in_all_adjacencies)
  with assms show "v \<in> set (adj g u)" by (simp add: adj_entry)
next
  assume v: "v \<in> set (adj g u)"
  then have "(u, adj g u) \<in> set g" by (intro adj_in_graph adj_nonempty_node)
  with v show "(u, v) \<in> set (all_adjacencies g)" by (auto simp: in_all_adjacencies)
qed

lemma copy_alt:
  assumes "distinct (nodes_of g)"
  shows "copy g = add_edges (all_adjacencies g) (isolated (nodes_of g))"
  using fold_add_node_distinct[of "[]" "nodes_of g"] assms
  by (simp add: copy_def fold_case_prod_add_edge)

lemma wf_copy: "wf_graph g \<Longrightarrow> wf_graph (copy g)"
  by (simp add: copy_alt wf_distinct_nodes wf_add_edges wf_isolated)

lemma nodes_copy:
  assumes "wf_graph g"
  shows "nodes_of (copy g) = nodes_of g"
proof -
  have d: "distinct (nodes_of g)" using assms by (rule wf_distinct_nodes)
  have "\<forall>(u, v) \<in> set (all_adjacencies g). u \<in> set (nodes_of g) \<and> v \<in> set (nodes_of g)"
    using assms adj_nonempty_node[of _ g] wf_adj_node[of g]
    by (auto simp: in_all_adjacencies_wf[OF d])
  then have "nodes_of (add_edges (all_adjacencies g) (isolated (nodes_of g))) =
      nodes_of (isolated (nodes_of g))"
    by (intro nodes_add_edges) simp
  then show ?thesis by (simp add: copy_alt[OF d])
qed

lemma set_adj_copy:
  assumes "wf_graph g"
  shows "set (adj (copy g) m) = set (adj g m)"
proof -
  have d: "distinct (nodes_of g)" using assms by (rule wf_distinct_nodes)
  show ?thesis
    using assms by (auto simp: copy_alt[OF d] set_adj_add_edges in_all_adjacencies_wf[OF d] dest: wf_sym)
qed

subsection \<open>\<open>remove_node\<close>\<close>

lemma nodes_fold_del_nbr [simp]: "nodes_of (fold (\<lambda>u t. del_nbr t u n) us g) = nodes_of g"
  by (induction us arbitrary: g) auto

lemma adj_fold_del_nbr:
  "adj (fold (\<lambda>u t. del_nbr t u n) us g) m =
     (if m \<in> set us then removeAll n (adj g m) else adj g m)"
  by (induction us arbitrary: g) (auto simp: adj_del_nbr)

lemma nodes_filter_key: "nodes_of (filter (\<lambda>(m, ns). m \<noteq> n) g) = removeAll n (nodes_of g)"
  by (induction g) auto

lemma adj_filter_key:
  "adj (filter (\<lambda>(m, ns). m \<noteq> n) g) m = (if m = n then [] else adj g m)"
  by (induction g) (auto simp: adj_def)

lemma remove_node_Inr:
  "n \<in> set (nodes_of g) \<Longrightarrow>
   remove_node g n = Inr (filter (\<lambda>(m, ns). m \<noteq> n) (fold (\<lambda>u t. del_nbr t u n) (adj g n) g))"
  by (auto simp: remove_node_def adj_def map_of_None_node split: option.splits)

lemma remove_node_Inl: "n \<notin> set (nodes_of g) \<Longrightarrow> remove_node g n = Inl NetworkXError"
  by (auto simp: remove_node_def map_of_None_node[symmetric] split: option.splits)

lemma nodes_remove_node:
  "remove_node g n = Inr g' \<Longrightarrow> nodes_of g' = removeAll n (nodes_of g)"
  by (cases "n \<in> set (nodes_of g)") (auto simp: remove_node_Inr remove_node_Inl nodes_filter_key)

lemma adj_remove_node:
  assumes "wf_graph g" "remove_node g n = Inr g'"
  shows "adj g' m = (if m = n then [] else removeAll n (adj g m))"
proof -
  have n: "n \<in> set (nodes_of g)"
    using assms(2) by (cases "n \<in> set (nodes_of g)") (auto simp: remove_node_Inl)
  have "removeAll n (adj g m) = adj g m" if "m \<notin> set (adj g n)"
    using that wf_sym[OF assms(1), of n m] by (cases "n \<in> set (adj g m)") auto
  then show ?thesis
    using assms(2) by (auto simp: remove_node_Inr[OF n] adj_filter_key adj_fold_del_nbr)
qed

lemma wf_remove_node:
  assumes "wf_graph g" "remove_node g n = Inr g'"
  shows "wf_graph g'"
  unfolding wf_graph_iff
proof (intro conjI allI impI)
  show "distinct (nodes_of g')"
    using assms by (simp add: nodes_remove_node distinct_removeAll wf_distinct_nodes)
  show "distinct (adj g' m)" for m
    using assms by (simp add: adj_remove_node distinct_removeAll wf_distinct_adj)
  show "m \<in> set (adj g' v)" if "v \<in> set (adj g' m)" for m v
    using that assms(1) by (auto simp: adj_remove_node[OF assms] dest: wf_sym split: if_splits)
qed

subsection \<open>The degree view and the chosen node\<close>

lemma degree_view_alt:
  assumes "distinct (nodes_of g)"
  shows "degree_view g = map (\<lambda>x. (fst x, degree_of g (fst x))) g"
proof -
  have "(case x of (n, nbrs) \<Rightarrow> (n, length nbrs + (if n \<in> set nbrs then 1 else 0))) =
        (fst x, degree_of g (fst x))" if x: "x \<in> set g" for x
  proof -
    obtain n ns where [simp]: "x = (n, ns)" by (cases x)
    from x assms have "adj g n = ns" by (simp add: adj_entry)
    then show ?thesis by (simp add: degree_of_def)
  qed
  then show ?thesis by (simp add: degree_view_def)
qed

lemma loop_cond_iff_first: "loop_cond ntr G \<longleftrightarrow> first_removable ntr G \<noteq> None"
  by (auto simp: loop_cond_def first_removable_def find_None_iff list_ex_iff)

lemma loop_cond_iff:
  "distinct (nodes_of G) \<Longrightarrow>
   loop_cond ntr G \<longleftrightarrow> (\<exists>n \<in> set (nodes_of G). removal_condition ntr n (degree_of G n))"
  by (auto simp: loop_cond_def degree_view_alt list_ex_iff)

lemma find_map_fun: "find P (map f xs) = map_option f (find (\<lambda>x. P (f x)) xs)"
  by (induction xs) auto

lemma find_Some_split:
  "find P xs = Some x \<longleftrightarrow>
     P x \<and> (\<exists>pre post. xs = pre @ x # post \<and> (\<forall>y \<in> set pre. \<not> P y))"
proof (induction xs)
  case Nil
  then show ?case by simp
next
  case (Cons a xs)
  show ?case
  proof (cases "P a")
    case True
    then show ?thesis by (auto simp: Cons_eq_append_conv)
  next
    case False
    have "(\<exists>pre post. a # xs = pre @ x # post \<and> (\<forall>y \<in> set pre. \<not> P y)) \<longleftrightarrow>
          (\<exists>pre post. xs = pre @ x # post \<and> (\<forall>y \<in> set pre. \<not> P y))" if "P x"
    proof
      assume "\<exists>pre post. a # xs = pre @ x # post \<and> (\<forall>y \<in> set pre. \<not> P y)"
      then obtain pre post where *: "a # xs = pre @ x # post" "\<forall>y \<in> set pre. \<not> P y"
        by blast
      with False that obtain pre' where "pre = a # pre'" by (cases pre) auto
      with * show "\<exists>pre post. xs = pre @ x # post \<and> (\<forall>y \<in> set pre. \<not> P y)" by auto
    next
      assume "\<exists>pre post. xs = pre @ x # post \<and> (\<forall>y \<in> set pre. \<not> P y)"
      then obtain pre post where *: "xs = pre @ x # post" "\<forall>y \<in> set pre. \<not> P y"
        by blast
      with False have "a # xs = (a # pre) @ x # post \<and> (\<forall>y \<in> set (a # pre). \<not> P y)"
        by simp
      then show "\<exists>pre post. a # xs = pre @ x # post \<and> (\<forall>y \<in> set pre. \<not> P y)" by blast
    qed
    with False Cons.IH show ?thesis by auto
  qed
qed

lemma first_removable_alt:
  assumes "distinct (nodes_of G)"
  shows "first_removable ntr G =
     map_option (\<lambda>n. (n, degree_of G n))
       (find (\<lambda>n. removal_condition ntr n (degree_of G n)) (nodes_of G))"
  by (simp add: first_removable_def degree_view_alt[OF assms] find_map_fun comp_def
      option.map_comp)

lemma first_removable_SomeD:
  assumes "distinct (nodes_of G)" "first_removable ntr G = Some (n, d)"
  shows "n \<in> set (nodes_of G)" "d = degree_of G n" "removal_condition ntr n (degree_of G n)"
  using assms(2) unfolding first_removable_alt[OF assms(1)]
  by (auto simp: find_Some_iff)

lemma first_removable_first:
  assumes "distinct (nodes_of G)"
  shows "first_removable ntr G = Some (n, d) \<longleftrightarrow>
     d = degree_of G n \<and> removal_condition ntr n d \<and>
     (\<exists>pre post. nodes_of G = pre @ n # post \<and>
        (\<forall>m \<in> set pre. \<not> removal_condition ntr m (degree_of G m)))"
  unfolding first_removable_alt[OF assms]
  by (auto simp: find_Some_split)

lemma degree_two_cases:
  assumes "wf_graph G" "degree_of G n = 2"
  shows "(\<exists>a b. adj G n = [a, b] \<and> a \<noteq> b \<and> a \<noteq> n \<and> b \<noteq> n) \<or> adj G n = [n]"
proof (cases "n \<in> set (adj G n)")
  case True
  with assms(2) have "length (adj G n) = 1" by (simp add: degree_of_def)
  then obtain x where "adj G n = [x]" by (cases "adj G n") auto
  with True show ?thesis by simp
next
  case False
  with assms(2) have "length (adj G n) = 2" by (simp add: degree_of_def)
  then obtain a b where ab: "adj G n = [a, b]"
    by (cases "adj G n"; cases "tl (adj G n)") auto
  moreover have "a \<noteq> b" using wf_distinct_adj[OF assms(1), of n] ab by simp
  ultimately show ?thesis using False by auto
qed

lemma node_pairs_of_node: "node_pairs_to_connect G n = combinations2 (adj G n)"
  by (simp add: node_pairs_to_connect_def edges_of_def comp_def)

lemma set_combinations2: "set (combinations2 xs) \<subseteq> set xs \<times> set xs"
  by (induction xs) auto

subsection \<open>One iteration\<close>

lemma loop_body_chosen:
  assumes wf: "wf_graph G" and first: "first_removable ntr G = Some (n, d)"
  shows "\<exists>G'. loop_body ntr G = Inr G' \<and> wf_graph G' \<and>
           nodes_of G' = removeAll n (nodes_of G) \<and>
           (\<forall>m. adj G' m =
              (if m = n then []
               else removeAll n (adj (add_edges (combinations2 (adj G n)) (copy G)) m)))"
proof -
  let ?P = "combinations2 (adj G n)"
  let ?T = "add_edges ?P (copy G)"
  have n: "n \<in> set (nodes_of G)"
    using first_removable_SomeD(1)[OF wf_distinct_nodes[OF wf] first] .
  have body: "loop_body ntr G = remove_node ?T n"
    by (simp add: loop_body_def first node_pairs_of_node)
  have wfT: "wf_graph ?T" by (intro wf_add_edges wf_copy wf)
  have "\<forall>(u, v) \<in> set ?P. u \<in> set (nodes_of (copy G)) \<and> v \<in> set (nodes_of (copy G))"
    using set_combinations2[of "adj G n"] wf_adj_node[OF wf, of _ n]
    by (auto simp: nodes_copy[OF wf])
  then have nodesT: "nodes_of ?T = nodes_of G"
    using nodes_add_edges[of ?P "copy G"] by (simp add: nodes_copy[OF wf])
  with n obtain G' where G': "remove_node ?T n = Inr G'"
    by (simp add: remove_node_Inr)
  have "wf_graph G'" using wfT G' by (rule wf_remove_node)
  moreover have "nodes_of G' = removeAll n (nodes_of G)"
    using nodes_remove_node[OF G'] nodesT by simp
  moreover have "adj G' m = (if m = n then [] else removeAll n (adj ?T m))" for m
    using adj_remove_node[OF wfT G'] .
  ultimately show ?thesis using body G' by auto
qed

lemma loop_body_nodes:
  assumes "wf_graph G" "loop_cond ntr G"
  shows "\<exists>n d G'. first_removable ntr G = Some (n, d) \<and> loop_body ntr G = Inr G' \<and>
           wf_graph G' \<and> nodes_of G' = removeAll n (nodes_of G) \<and>
           n \<in> set (nodes_of G) \<and> removal_condition ntr n (degree_of G n)"
proof -
  from assms(2) obtain n d where f: "first_removable ntr G = Some (n, d)"
    by (auto simp: loop_cond_iff_first)
  from loop_body_chosen[OF assms(1) f] first_removable_SomeD[OF wf_distinct_nodes[OF assms(1)] f] f
  show ?thesis by blast
qed

lemma length_removeAll_distinct:
  "distinct xs \<Longrightarrow> x \<in> set xs \<Longrightarrow> Suc (length (removeAll x xs)) = length xs"
  by (induction xs) (auto simp: removeAll_id)

lemma loop_body_length:
  assumes "wf_graph G" "loop_cond ntr G"
  shows "\<exists>G'. loop_body ntr G = Inr G' \<and> wf_graph G' \<and> Suc (length G') = length G"
proof -
  from loop_body_nodes[OF assms] obtain n G' where
    *: "loop_body ntr G = Inr G'" "wf_graph G'" "nodes_of G' = removeAll n (nodes_of G)"
       "n \<in> set (nodes_of G)" by blast
  have "Suc (length (nodes_of G')) = length (nodes_of G)"
    unfolding *(3) by (rule length_removeAll_distinct[OF wf_distinct_nodes[OF assms(1)] *(4)])
  moreover have "length (nodes_of G') = length G'" "length (nodes_of G) = length G"
    by (rule length_map)+
  ultimately have "Suc (length G') = length G" by (simp only:)
  then show ?thesis using *(1,2) by simp
qed

subsection \<open>The whole loop\<close>

lemma reduce_iters_sound:
  "reduce_iters k ntr G = Some r \<Longrightarrow> reduce_loop ntr G = Some r"
proof (induction k arbitrary: G)
  case 0
  then show ?case by (subst reduce_loop.simps) (simp split: if_splits)
next
  case (Suc k)
  show ?case
  proof (cases "loop_cond ntr G")
    case False
    with Suc.prems show ?thesis by (subst reduce_loop.simps) simp
  next
    case True
    show ?thesis
    proof (cases "loop_body ntr G")
      case (Inl e)
      with True Suc.prems have r: "r = Inl e" by simp
      show ?thesis unfolding r by (subst reduce_loop.simps) (simp add: True Inl)
    next
      case (Inr G')
      with True Suc.prems have "reduce_iters k ntr G' = Some r" by simp
      then have "reduce_loop ntr G' = Some r" by (rule Suc.IH)
      with True Inr show ?thesis by (subst reduce_loop.simps) simp
    qed
  qed
qed

lemma iterates_wf: "iterates ntr G H \<Longrightarrow> wf_graph G \<Longrightarrow> wf_graph H"
proof (induction rule: iterates.induct)
  case iterates_start
  then show ?case .
next
  case (iterates_step H H')
  then have "wf_graph H" by simp
  from loop_body_length[OF this iterates_step.hyps(2)] iterates_step.hyps(3)
  show ?case by auto
qed

lemma reduce_iters_total:
  assumes "iterates ntr G0 H" "wf_graph H" "length H \<le> k"
  shows "\<exists>G'. reduce_iters k ntr H = Some (Inr G') \<and> iterates ntr G0 G' \<and> wf_graph G' \<and>
           \<not> loop_cond ntr G'"
  using assms
proof (induction k arbitrary: H)
  case 0
  then have "H = []" by simp
  then have "\<not> loop_cond ntr H" by (simp add: loop_cond_def degree_view_def)
  with 0 show ?case by auto
next
  case (Suc k)
  show ?case
  proof (cases "loop_cond ntr H")
    case False
    with Suc.prems show ?thesis by auto
  next
    case True
    from loop_body_length[OF Suc.prems(2) True] obtain H' where
      H': "loop_body ntr H = Inr H'" "wf_graph H'" "Suc (length H') = length H" by blast
    have "iterates ntr G0 H'" using Suc.prems(1) True H'(1) by (rule iterates_step)
    moreover have "length H' \<le> k" using H'(3) Suc.prems(3) by simp
    ultimately obtain G' where
      "reduce_iters k ntr H' = Some (Inr G')" "iterates ntr G0 G'" "wf_graph G'"
      "\<not> loop_cond ntr G'"
      using Suc.IH[OF _ H'(2)] by blast
    with True H'(1) show ?thesis by auto
  qed
qed

lemma reduce_loop_total:
  assumes "wf_graph G"
  shows "\<exists>G'. reduce_loop ntr G = Some (Inr G') \<and> iterates ntr G G' \<and> wf_graph G' \<and>
           \<not> loop_cond ntr G'"
proof -
  from reduce_iters_total[OF iterates_start assms order_refl, of ntr] obtain G' where
    *: "reduce_iters (length G) ntr G = Some (Inr G')" "iterates ntr G G'" "wf_graph G'"
       "\<not> loop_cond ntr G'" by blast
  from reduce_iters_sound[OF *(1)] * show ?thesis by blast
qed

lemma reduce_loop_stable: "\<not> loop_cond ntr G \<Longrightarrow> reduce_loop ntr G = Some (Inr G)"
  by (subst reduce_loop.simps) simp

subsection \<open>What one iteration does to the adjacency\<close>

lemma combinations2_distinct:
  "distinct xs \<Longrightarrow> (a, b) \<in> set (combinations2 xs) \<Longrightarrow> a \<noteq> b"
  using set_combinations2 by (induction xs) fastforce+

lemma first_removable_cases:
  assumes "wf_graph H" "first_removable ntr H = Some (n, d)"
  shows "(\<exists>a b. adj H n = [a, b] \<and> a \<noteq> b \<and> a \<noteq> n \<and> b \<noteq> n) \<or> adj H n = [n]"
proof -
  from first_removable_SomeD(3)[OF wf_distinct_nodes[OF assms(1)] assms(2)]
  have "degree_of H n = 2" by (simp add: removal_condition_def)
  with assms(1) show ?thesis by (rule degree_two_cases)
qed

lemma loop_body_adj:
  assumes wf: "wf_graph H" and first: "first_removable ntr H = Some (n, d)"
    and body: "loop_body ntr H = Inr H'"
  shows "set (adj H' m) =
     (if m = n then {}
      else (set (adj H m) \<union>
            {v. (m, v) \<in> set (combinations2 (adj H n)) \<or>
                (v, m) \<in> set (combinations2 (adj H n))}) - {n})"
proof -
  from loop_body_chosen[OF wf first] body
  have "adj H' m =
      (if m = n then [] else removeAll n (adj (add_edges (combinations2 (adj H n)) (copy H)) m))"
    by auto
  then show ?thesis
    by (simp add: set_adj_add_edges set_adj_copy[OF wf])
qed

lemma loop_body_adj_two:
  assumes wf: "wf_graph H" and first: "first_removable ntr H = Some (n, d)"
    and body: "loop_body ntr H = Inr H'" and ab: "adj H n = [a, b]"
  shows "set (adj H' m) =
     (if m = n then {}
      else (set (adj H m) \<union> (if m = a then {b} else {}) \<union> (if m = b then {a} else {})) - {n})"
  unfolding loop_body_adj[OF wf first body] ab by auto

lemma loop_body_adj_self:
  assumes wf: "wf_graph H" and first: "first_removable ntr H = Some (n, d)"
    and body: "loop_body ntr H = Inr H'" and ab: "adj H n = [n]"
  shows "set (adj H' m) = (if m = n then {} else set (adj H m))"
proof -
  have "n \<notin> set (adj H m)" if "m \<noteq> n"
    using wf_sym[OF wf, of n m] that ab by auto
  then show ?thesis
    unfolding loop_body_adj[OF wf first body] ab by auto
qed

lemma loop_body_no_first:
  assumes "wf_graph H" "first_removable ntr H = None"
  shows "loop_body ntr H = Inr (copy H)"
  using assms by (simp add: loop_body_def)

lemma self_loops_iff: "n \<in> set (self_loops g) \<longleftrightarrow> n \<in> set (adj g n)"
  by (auto simp: self_loops_def dest: adj_nonempty_node)

lemma loop_body_self_loops:
  assumes wf: "wf_graph H" and body: "loop_body ntr H = Inr H'"
  shows "set (self_loops H') \<subseteq> set (self_loops H)"
proof (cases "first_removable ntr H")
  case None
  with wf body have "H' = copy H" by (simp add: loop_body_no_first)
  then show ?thesis by (auto simp: self_loops_iff set_adj_copy[OF wf])
next
  case (Some p)
  obtain n d where first: "first_removable ntr H = Some (n, d)" using Some by (cases p) auto
  have "m \<in> set (adj H m)" if "m \<in> set (adj H' m)" for m
  proof -
    from that have "m \<noteq> n" and
      "m \<in> set (adj H m) \<or> (m, m) \<in> set (combinations2 (adj H n))"
      unfolding loop_body_adj[OF wf first body] by (auto split: if_splits)
    with combinations2_distinct[OF wf_distinct_adj[OF wf, of n], of m m]
    show ?thesis by auto
  qed
  then show ?thesis by (auto simp: self_loops_iff)
qed

lemma loop_body_keeps_edges:
  assumes wf: "wf_graph H" and c: "loop_cond ntr H" and body: "loop_body ntr H = Inr H'"
    and u: "u \<in> set (nodes_of H')" and v: "v \<in> set (nodes_of H')" and e: "v \<in> set (adj H u)"
  shows "v \<in> set (adj H' u)"
proof -
  from loop_body_nodes[OF wf c] body obtain n d where
    first: "first_removable ntr H = Some (n, d)" and
    nodes: "nodes_of H' = removeAll n (nodes_of H)" by auto
  from u v nodes have "u \<noteq> n" "v \<noteq> n" by auto
  with e show ?thesis unfolding loop_body_adj[OF wf first body] by simp
qed

subsection \<open>Invariants of the loop\<close>

lemma iterates_nodes:
  "iterates ntr G H \<Longrightarrow> wf_graph G \<Longrightarrow> set (nodes_of H) \<subseteq> set (nodes_of G)"
proof (induction rule: iterates.induct)
  case iterates_start
  show ?case by simp
next
  case (iterates_step H H')
  have wfH: "wf_graph H" using iterates_step.hyps(1) iterates_step.prems by (rule iterates_wf)
  from loop_body_nodes[OF wfH iterates_step.hyps(2)] iterates_step.hyps(3)
  obtain n where "nodes_of H' = removeAll n (nodes_of H)" by auto
  then have "set (nodes_of H') \<subseteq> set (nodes_of H)" by auto
  with iterates_step.IH[OF iterates_step.prems] show ?case by blast
qed

lemma iterates_self_loops:
  "iterates ntr G H \<Longrightarrow> wf_graph G \<Longrightarrow> set (self_loops H) \<subseteq> set (self_loops G)"
proof (induction rule: iterates.induct)
  case iterates_start
  show ?case by simp
next
  case (iterates_step H H')
  have wfH: "wf_graph H" using iterates_step.hyps(1) iterates_step.prems by (rule iterates_wf)
  from loop_body_self_loops[OF wfH iterates_step.hyps(3)]
    iterates_step.IH[OF iterates_step.prems]
  show ?case by blast
qed

lemma iterates_keeps_edges:
  "iterates ntr G H \<Longrightarrow> wf_graph G \<Longrightarrow> u \<in> set (nodes_of H) \<Longrightarrow> v \<in> set (nodes_of H) \<Longrightarrow>
   v \<in> set (adj G u) \<Longrightarrow> v \<in> set (adj H u)"
proof (induction rule: iterates.induct)
  case iterates_start
  then show ?case by simp
next
  case (iterates_step H H')
  have wfH: "wf_graph H" using iterates_step.hyps(1) iterates_step.prems(1) by (rule iterates_wf)
  from loop_body_nodes[OF wfH iterates_step.hyps(2)] iterates_step.hyps(3)
  obtain n where "nodes_of H' = removeAll n (nodes_of H)" by auto
  with iterates_step.prems have "u \<in> set (nodes_of H)" "v \<in> set (nodes_of H)" by auto
  then have "v \<in> set (adj H u)" using iterates_step.IH iterates_step.prems by blast
  with loop_body_keeps_edges[OF wfH iterates_step.hyps(2,3) iterates_step.prems(2,3)]
  show ?case .
qed

lemma iterates_removed:
  "iterates ntr G H \<Longrightarrow> wf_graph G \<Longrightarrow> n \<in> set (nodes_of G) \<Longrightarrow> n \<notin> set (nodes_of H) \<Longrightarrow>
   \<exists>K K'. iterates ntr G K \<and> loop_cond ntr K \<and> loop_body ntr K = Inr K' \<and>
      n \<in> set (nodes_of K) \<and> n \<notin> set (nodes_of K') \<and>
      removal_condition ntr n (degree_of K n)"
proof (induction rule: iterates.induct)
  case iterates_start
  then show ?case by simp
next
  case (iterates_step H H')
  show ?case
  proof (cases "n \<in> set (nodes_of H)")
    case False
    with iterates_step.IH iterates_step.prems show ?thesis by blast
  next
    case True
    have wfH: "wf_graph H"
      using iterates_step.hyps(1) iterates_step.prems(1) by (rule iterates_wf)
    from loop_body_nodes[OF wfH iterates_step.hyps(2)] iterates_step.hyps(3)
    obtain m where m: "nodes_of H' = removeAll m (nodes_of H)"
      "removal_condition ntr m (degree_of H m)" by auto
    with True iterates_step.prems(3) have "m = n" by auto
    with m(2) True iterates_step.hyps iterates_step.prems(3) show ?thesis by blast
  qed
qed

lemma count_list_distinct:
  "distinct xs \<Longrightarrow> x \<in> set xs \<Longrightarrow> count_list xs x = 1"
  by (induction xs) auto

lemma reduce_loop_unfold:
  "loop_cond ntr G \<Longrightarrow> loop_body ntr G = Inr G1 \<Longrightarrow> reduce_loop ntr G = reduce_loop ntr G1"
  by (subst reduce_loop.simps) simp

subsection \<open>Chains\<close>

lemma distinct_set_single:
  assumes "distinct xs" "set xs = {a}"
  shows "xs = [a]"
proof -
  from assms have "length xs = 1" using distinct_card[of xs] by simp
  then obtain x where "xs = [x]" by (cases xs) auto
  with assms show ?thesis by simp
qed

lemma distinct_set_pair:
  assumes "distinct xs" "set xs = {a, b}" "a \<noteq> b"
  shows "xs = [a, b] \<or> xs = [b, a]"
proof -
  from assms have "length xs = 2" using distinct_card[of xs] by simp
  then obtain x y where "xs = [x, y]" by (cases xs; cases "tl xs") auto
  with assms show ?thesis by (auto simp: doubleton_eq_iff)
qed

lemma degree_of_pair:
  assumes "wf_graph G" "set (adj G n) = {a, b}" "a \<noteq> b" "a \<noteq> n" "b \<noteq> n"
  shows "degree_of G n = 2"
  using distinct_set_pair[OF wf_distinct_adj[OF assms(1)] assms(2,3)] assms(4,5)
  by (auto simp: degree_of_def)

lemma chain3:
  assumes wf: "wf_graph G" and nodes: "set (nodes_of G) = {A, M, B}"
    and neq: "A \<noteq> M" "A \<noteq> B" "M \<noteq> B"
    and adjA: "set (adj G A) = {M}" and adjM: "set (adj G M) = {A, B}"
    and adjB: "set (adj G B) = {M}"
    and match: "list_ex (\<lambda>e. sublist e M) ntr" "\<not> list_ex (\<lambda>e. sublist e A) ntr"
      "\<not> list_ex (\<lambda>e. sublist e B) ntr"
  shows "\<exists>G'. reduce_loop ntr G = Some (Inr G') \<and> wf_graph G' \<and>
           set (nodes_of G') = {A, B} \<and> adj G' A = [B] \<and> adj G' B = [A]"
proof -
  have degM: "degree_of G M = 2" using wf adjM neq by (intro degree_of_pair[of G M A B]) auto
  have c: "loop_cond ntr G"
    unfolding loop_cond_iff[OF wf_distinct_nodes[OF wf]] nodes
    using degM match(1) by (auto simp: removal_condition_def)
  then obtain n d where first: "first_removable ntr G = Some (n, d)"
    by (auto simp: loop_cond_iff_first)
  from first_removable_SomeD[OF wf_distinct_nodes[OF wf] first] nodes match(2,3)
  have n: "n = M" by (auto simp: removal_condition_def)
  from loop_body_chosen[OF wf first] obtain G1 where
    body: "loop_body ntr G = Inr G1" and wf1: "wf_graph G1" and
    nodes1: "nodes_of G1 = removeAll n (nodes_of G)" by blast
  have set1: "set (nodes_of G1) = {A, B}" using nodes neq unfolding nodes1 n by auto
  from distinct_set_pair[OF wf_distinct_adj[OF wf] adjM neq(2)]
  have "set (adj G1 A) = {B} \<and> set (adj G1 B) = {A}"
  proof
    assume ab: "adj G M = [A, B]"
    show ?thesis
      using neq adjA adjB unfolding loop_body_adj_two[OF wf first[unfolded n] body[unfolded n] ab]
      by auto
  next
    assume ab: "adj G M = [B, A]"
    show ?thesis
      using neq adjA adjB unfolding loop_body_adj_two[OF wf first[unfolded n] body[unfolded n] ab]
      by auto
  qed
  then have adj1: "adj G1 A = [B]" "adj G1 B = [A]"
    using wf_distinct_adj[OF wf1] by (simp_all add: distinct_set_single)
  have "\<not> loop_cond ntr G1"
    unfolding loop_cond_iff[OF wf_distinct_nodes[OF wf1]] set1
    using match(2,3) by (auto simp: removal_condition_def)
  then have "reduce_loop ntr G1 = Some (Inr G1)" by (rule reduce_loop_stable)
  then have "reduce_loop ntr G = Some (Inr G1)" using reduce_loop_unfold[OF c body] by simp
  with wf1 set1 adj1 show ?thesis by blast
qed

subsection \<open>The reduction phase\<close>

lemma reduction_phase_total:
  assumes "wf_graph G"
  shows "\<exists>G'. reduction_phase ntr G = Some (Inr G') \<and> wf_graph G'"
proof (cases ntr)
  case None
  with assms show ?thesis by (simp add: reduction_phase_def)
next
  case (Some xs)
  show ?thesis
  proof (cases "xs = []")
    case True
    with Some assms show ?thesis by (simp add: reduction_phase_def)
  next
    case False
    from reduce_loop_total[OF assms, of xs] obtain G' where
      "reduce_loop xs G = Some (Inr G')" "wf_graph G'" by blast
    with Some False show ?thesis by (simp add: reduction_phase_def)
  qed
qed

subsection \<open>Graph objects\<close>

lemma fold_add_edge_obj:
  "a < length h \<Longrightarrow>
   fold (\<lambda>pair t. add_edge_obj t a (fst pair) (snd pair)) ps h = h[a := add_edges ps (h ! a)]"
proof (induction ps arbitrary: h)
  case Nil
  then show ?case by simp
next
  case (Cons p ps)
  then show ?case by (simp add: add_edge_obj_def)
qed

lemma loop_body_obj_refines:
  assumes "G < length h"
  shows "loop_body_obj ntr (h, G) =
     (case loop_body ntr (h ! G) of Inl e \<Rightarrow> Inl e | Inr G' \<Rightarrow> Inr (h @ [G'], length h))"
proof -
  have old: "(h @ [copy (h ! G)]) ! G = h ! G" using assms by (simp add: nth_append)
  have upd: "fold (\<lambda>pair t. add_edge_obj t (length h) (fst pair) (snd pair)) ps
               (h @ [copy (h ! G)]) = h @ [add_edges ps (copy (h ! G))]" for ps
    by (simp add: fold_add_edge_obj)
  show ?thesis
    by (simp add: loop_body_obj_def loop_body_def copy_obj_def old upd remove_node_obj_def
        split: option.splits sum.splits prod.splits)
qed

lemma reduce_loop_obj_total:
  assumes "G < length h" "wf_graph (h ! G)"
  shows "\<exists>h' G'. reduce_loop_obj ntr (h, G) = Some (Inr (h', G')) \<and>
           (\<forall>a < length h. h' ! a = h ! a) \<and> length h \<le> length h' \<and> G' < length h' \<and>
           reduce_loop ntr (h ! G) = Some (Inr (h' ! G')) \<and>
           (loop_cond ntr (h ! G) \<longrightarrow> length h \<le> G')"
  using assms
proof (induction "length (h ! G)" arbitrary: h G rule: less_induct)
  case less
  show ?case
  proof (cases "loop_cond ntr (h ! G)")
    case False
    then have "reduce_loop_obj ntr (h, G) = Some (Inr (h, G))"
      by (subst reduce_loop_obj.simps) simp
    moreover have "reduce_loop ntr (h ! G) = Some (Inr (h ! G))"
      using False by (rule reduce_loop_stable)
    ultimately show ?thesis using False less.prems(1) by simp
  next
    case True
    from loop_body_length[OF less.prems(2) True] obtain G1 where
      body: "loop_body ntr (h ! G) = Inr G1" and wf1: "wf_graph G1" and
      len: "Suc (length G1) = length (h ! G)" by blast
    let ?h = "h @ [G1]"
    have bodyo: "loop_body_obj ntr (h, G) = Inr (?h, length h)"
      by (simp add: loop_body_obj_refines[OF less.prems(1)] body)
    have at: "?h ! length h = G1" by simp
    have "length (?h ! length h) < length (h ! G)" using len by simp
    moreover have "length h < length ?h" by simp
    moreover have "wf_graph (?h ! length h)" using wf1 by simp
    ultimately obtain h' G' where
      run: "reduce_loop_obj ntr (?h, length h) = Some (Inr (h', G'))" and
      frame: "\<forall>a < length ?h. h' ! a = ?h ! a" and
      grow: "length ?h \<le> length h'" and live: "G' < length h'" and
      pure: "reduce_loop ntr (?h ! length h) = Some (Inr (h' ! G'))" and
      fresh: "loop_cond ntr (?h ! length h) \<longrightarrow> length ?h \<le> G'"
      using less.hyps[of ?h "length h"] by blast
    have r1: "reduce_loop_obj ntr (h, G) = Some (Inr (h', G'))"
      by (subst reduce_loop_obj.simps) (simp add: True bodyo run)
    have r2: "\<forall>a < length h. h' ! a = h ! a"
      using frame by (auto simp: nth_append)
    have r3: "reduce_loop ntr (h ! G) = Some (Inr (h' ! G'))"
      using reduce_loop_unfold[OF True body] pure by simp
    have r4: "length h \<le> G'"
    proof (cases "loop_cond ntr G1")
      case True
      with fresh show ?thesis by simp
    next
      case False
      then have "reduce_loop_obj ntr (?h, length h) = Some (Inr (?h, length h))"
        by (subst reduce_loop_obj.simps) simp
      with run show ?thesis by simp
    qed
    from r1 r2 r3 r4 grow live show ?thesis by auto
  qed
qed

subsection \<open>A node that reaches degree 2 during the loop\<close>

text \<open>
  The degree that counts is the one in the graph of the current iteration: here \<open>wg_a\<close>
  has degree 3 in the input, gets degree 2 when \<open>wg_n\<close> is removed, and is removed by the
  second iteration.
\<close>

lemma degree_drops_example:
  "degree_of [(''wg_n'', [''wg_a'', ''B'']), (''wg_a'', [''wg_n'', ''B'', ''C'']),
              (''B'', [''wg_n'', ''wg_a'']), (''C'', [''wg_a''])] ''wg_a'' = 3"
  "reduce_loop [''wg'']
     [(''wg_n'', [''wg_a'', ''B'']), (''wg_a'', [''wg_n'', ''B'', ''C'']),
      (''B'', [''wg_n'', ''wg_a'']), (''C'', [''wg_a''])] =
   Some (Inr [(''B'', [''C'']), (''C'', [''B''])])"
  by code_simp+

section \<open>The properties of the specification\<close>

text \<open>
  C1, as amended.  Let \<open>n\<close> be the node at which an iteration of the reduction loop stops
  (the first node in iteration order that has degree 2 and a label containing one of the
  substrings), with the two neighbours \<open>a\<close> and \<open>b\<close>.  After that iteration \<open>n\<close> is
  absent, \<open>a\<close> and \<open>b\<close> are present and joined by an edge, which each of them records
  once.  When the loop has ended \<open>n\<close> is still absent, and \<open>a\<close> and \<open>b\<close> are joined by
  a single edge if both are still nodes (either may have been reduced in a later
  iteration).
\<close>

theorem rewiring_of_chosen_node:
  assumes wf: "wf_graph G" and first: "first_removable ntr G = Some (n, d)"
    and ab: "adj G n = [a, b]"
  shows "\<exists>G1 G'. loop_body ntr G = Inr G1 \<and>
           n \<notin> set (nodes_of G1) \<and> a \<in> set (nodes_of G1) \<and> b \<in> set (nodes_of G1) \<and>
           b \<in> set (adj G1 a) \<and> a \<in> set (adj G1 b) \<and>
           count_list (adj G1 a) b = 1 \<and> count_list (adj G1 b) a = 1 \<and>
           reduce_loop ntr G = Some (Inr G') \<and> n \<notin> set (nodes_of G') \<and>
           (a \<in> set (nodes_of G') \<and> b \<in> set (nodes_of G') \<longrightarrow>
              b \<in> set (adj G' a) \<and> a \<in> set (adj G' b) \<and>
              count_list (adj G' a) b = 1 \<and> count_list (adj G' b) a = 1)"
proof -
  have c: "loop_cond ntr G" using first by (simp add: loop_cond_iff_first)
  from loop_body_chosen[OF wf first] obtain G1 where
    body: "loop_body ntr G = Inr G1" and wf1: "wf_graph G1" and
    nodes1: "nodes_of G1 = removeAll n (nodes_of G)" by blast
  from first_removable_cases[OF wf first] ab have neq: "a \<noteq> b" "a \<noteq> n" "b \<noteq> n" by auto
  have "a \<in> set (nodes_of G)" "b \<in> set (nodes_of G)"
    using wf_adj_node[OF wf, of a n] wf_adj_node[OF wf, of b n] ab by auto
  with neq nodes1 have in1: "n \<notin> set (nodes_of G1)" "a \<in> set (nodes_of G1)"
    "b \<in> set (nodes_of G1)" by auto
  have e1: "b \<in> set (adj G1 a)" "a \<in> set (adj G1 b)"
    using neq unfolding loop_body_adj_two[OF wf first body ab] by auto
  have cnt1: "count_list (adj G1 a) b = 1" "count_list (adj G1 b) a = 1"
    using e1 wf_distinct_adj[OF wf1] by (simp_all add: count_list_distinct)
  from reduce_loop_total[OF wf1, of ntr] obtain G' where
    run1: "reduce_loop ntr G1 = Some (Inr G')" and it: "iterates ntr G1 G'" and
    wf': "wf_graph G'" by blast
  have run: "reduce_loop ntr G = Some (Inr G')"
    using reduce_loop_unfold[OF c body] run1 by simp
  have sub: "set (nodes_of G') \<subseteq> set (nodes_of G1)" using it wf1 by (rule iterates_nodes)
  with in1 have out: "n \<notin> set (nodes_of G')" by auto
  have fin: "b \<in> set (adj G' a) \<and> a \<in> set (adj G' b) \<and>
      count_list (adj G' a) b = 1 \<and> count_list (adj G' b) a = 1"
    if "a \<in> set (nodes_of G')" "b \<in> set (nodes_of G')"
  proof -
    have "b \<in> set (adj G' a)" using it wf1 that e1(1) by (rule iterates_keeps_edges)
    moreover have "a \<in> set (adj G' b)"
      using it wf1 that(2,1) e1(2) by (rule iterates_keeps_edges)
    ultimately show ?thesis using wf_distinct_adj[OF wf'] by (simp add: count_list_distinct)
  qed
  from body in1 e1 cnt1 run out fin show ?thesis by blast
qed

theorem rewiring_of_chosen_node_witness:
  "wf_graph [(''A'', [''wg1'']), (''wg1'', [''A'', ''wg2'']), (''wg2'', [''wg1'', ''B'']),
             (''B'', [''wg2''])] \<and>
   first_removable [''wg''] [(''A'', [''wg1'']), (''wg1'', [''A'', ''wg2'']),
             (''wg2'', [''wg1'', ''B'']), (''B'', [''wg2''])] = Some (''wg1'', 2) \<and>
   ''wg2'' \<in> set (adj [(''A'', [''wg2'']), (''wg2'', [''B'', ''A'']), (''B'', [''wg2''])] ''A'')"
proof -
  let ?G = "[(''A'', [''wg1'']), (''wg1'', [''A'', ''wg2'']), (''wg2'', [''wg1'', ''B'']),
             (''B'', [''wg2''])]"
  have wf: "wf_graph ?G" by code_simp
  have first: "first_removable [''wg''] ?G = Some (''wg1'', 2)" by code_simp
  have ab: "adj ?G ''wg1'' = [''A'', ''wg2'']" by code_simp
  have body: "loop_body [''wg''] ?G =
      Inr [(''A'', [''wg2'']), (''wg2'', [''B'', ''A'']), (''B'', [''wg2''])]"
    by code_simp
  from rewiring_of_chosen_node[OF wf first ab] obtain G1 where
    "loop_body [''wg''] ?G = Inr G1" "''wg2'' \<in> set (adj G1 ''A'')" by blast
  with body have "''wg2'' \<in> set (adj [(''A'', [''wg2'']), (''wg2'', [''B'', ''A'']),
      (''B'', [''wg2''])] ''A'')" by simp
  with wf first show ?thesis by (simp only: simp_thms)
qed

text \<open>
  C1 as the specification states it fails on a triangle: \<open>wg2\<close> matches the filter and has
  degree 2 with the neighbours \<open>wg1\<close> and \<open>B\<close>, but the loop stops first at \<open>wg1\<close>,
  whose removal leaves \<open>wg2\<close> with degree 1.  The loop ends with \<open>wg2\<close> still in the
  graph, and with no edge between \<open>wg1\<close> and \<open>B\<close>, as \<open>wg1\<close> is gone.
\<close>

theorem rewiring_counterexample:
  "wf_graph [(''wg1'', [''wg2'', ''B'']), (''wg2'', [''wg1'', ''B'']),
             (''B'', [''wg2'', ''wg1''])] \<and>
   removal_condition [''wg''] ''wg2''
     (degree_of [(''wg1'', [''wg2'', ''B'']), (''wg2'', [''wg1'', ''B'']),
                 (''B'', [''wg2'', ''wg1''])] ''wg2'') \<and>
   adj [(''wg1'', [''wg2'', ''B'']), (''wg2'', [''wg1'', ''B'']),
        (''B'', [''wg2'', ''wg1''])] ''wg2'' = [''wg1'', ''B''] \<and>
   reduce_loop [''wg''] [(''wg1'', [''wg2'', ''B'']), (''wg2'', [''wg1'', ''B'']),
        (''B'', [''wg2'', ''wg1''])] = Some (Inr [(''wg2'', [''B'']), (''B'', [''wg2''])]) \<and>
   ''wg2'' \<in> set (nodes_of [(''wg2'', [''B'']), (''B'', [''wg2''])]) \<and>
   ''B'' \<notin> set (adj [(''wg2'', [''B'']), (''B'', [''wg2''])] ''wg1'')"
proof (intro conjI)
  show "wf_graph [(''wg1'', [''wg2'', ''B'']), (''wg2'', [''wg1'', ''B'']),
             (''B'', [''wg2'', ''wg1''])]" by code_simp
  show "removal_condition [''wg''] ''wg2''
     (degree_of [(''wg1'', [''wg2'', ''B'']), (''wg2'', [''wg1'', ''B'']),
                 (''B'', [''wg2'', ''wg1''])] ''wg2'')" by code_simp
  show "adj [(''wg1'', [''wg2'', ''B'']), (''wg2'', [''wg1'', ''B'']),
        (''B'', [''wg2'', ''wg1''])] ''wg2'' = [''wg1'', ''B'']" by code_simp
  show "reduce_loop [''wg''] [(''wg1'', [''wg2'', ''B'']), (''wg2'', [''wg1'', ''B'']),
        (''B'', [''wg2'', ''wg1''])] = Some (Inr [(''wg2'', [''B'']), (''B'', [''wg2''])])"
    by code_simp
  show "''wg2'' \<in> set (nodes_of [(''wg2'', [''B'']), (''B'', [''wg2''])])" by simp
  show "''B'' \<notin> set (adj [(''wg2'', [''B'']), (''B'', [''wg2''])] ''wg1'')" by code_simp
qed

text \<open>
  C2.  For every graph (in the library's representation) and every collection of
  substrings, the reduction loop ends with a graph in which no node both has degree 2 and
  has a label that contains one of the substrings; run on that graph again, the loop
  returns it unchanged.
\<close>

theorem reduction_fixpoint:
  assumes "wf_graph G"
  shows "\<exists>G'. reduce_loop ntr G = Some (Inr G') \<and>
           (\<forall>n \<in> set (nodes_of G').
              \<not> (degree_of G' n = 2 \<and> list_ex (\<lambda>e. sublist e n) ntr)) \<and>
           reduce_loop ntr G' = Some (Inr G')"
proof -
  from reduce_loop_total[OF assms, of ntr] obtain G' where
    *: "reduce_loop ntr G = Some (Inr G')" "wf_graph G'" "\<not> loop_cond ntr G'" by blast
  from *(2,3) have "\<forall>n \<in> set (nodes_of G'). \<not> removal_condition ntr n (degree_of G' n)"
    by (simp add: loop_cond_iff wf_distinct_nodes)
  then have "\<forall>n \<in> set (nodes_of G').
      \<not> (degree_of G' n = 2 \<and> list_ex (\<lambda>e. sublist e n) ntr)"
    by (simp add: removal_condition_def)
  with * reduce_loop_stable[OF *(3)] show ?thesis by blast
qed

theorem reduction_fixpoint_witness:
  "wf_graph [(''A'', [''wg1'']), (''wg1'', [''A'', ''wg2'']), (''wg2'', [''wg1'', ''B'']),
             (''B'', [''wg2''])] \<and>
   reduce_loop [''wg''] [(''A'', [''B'']), (''B'', [''A''])] =
     Some (Inr [(''A'', [''B'']), (''B'', [''A''])])"
proof -
  let ?G = "[(''A'', [''wg1'']), (''wg1'', [''A'', ''wg2'']), (''wg2'', [''wg1'', ''B'']),
             (''B'', [''wg2''])]"
  have wf: "wf_graph ?G" by code_simp
  have run: "reduce_loop [''wg''] ?G = Some (Inr [(''A'', [''B'']), (''B'', [''A''])])"
    by code_simp
  from reduction_fixpoint[OF wf, of "[''wg'']"] run wf show ?thesis by simp
qed

text \<open>
  C3.  For every graph and every collection of substrings the reduction loop ends, after
  at most as many runs of its body as the graph has nodes; a run of the body removes
  exactly one node, so the number of nodes goes down by one.
\<close>

theorem reduction_terminates:
  assumes "wf_graph G"
  shows "(\<exists>G'. reduce_iters (length (nodes_of G)) ntr G = Some (Inr G') \<and>
              reduce_loop ntr G = Some (Inr G')) \<and>
         (loop_cond ntr G \<longrightarrow>
            (\<exists>n G1. loop_body ntr G = Inr G1 \<and> wf_graph G1 \<and> n \<in> set (nodes_of G) \<and>
               nodes_of G1 = removeAll n (nodes_of G) \<and>
               Suc (length (nodes_of G1)) = length (nodes_of G)))"
proof (intro conjI impI)
  from reduce_iters_total[OF iterates_start assms order_refl, of ntr] obtain G' where
    *: "reduce_iters (length G) ntr G = Some (Inr G')" by blast
  from reduce_iters_sound[OF *] *
  show "\<exists>G'. reduce_iters (length (nodes_of G)) ntr G = Some (Inr G') \<and>
              reduce_loop ntr G = Some (Inr G')" by simp
next
  assume c: "loop_cond ntr G"
  from loop_body_nodes[OF assms c] obtain n G1 where
    *: "loop_body ntr G = Inr G1" "wf_graph G1" "nodes_of G1 = removeAll n (nodes_of G)"
       "n \<in> set (nodes_of G)" by blast
  have "Suc (length (removeAll n (nodes_of G))) = length (nodes_of G)"
    by (rule length_removeAll_distinct[OF wf_distinct_nodes[OF assms] *(4)])
  with * show "\<exists>n G1. loop_body ntr G = Inr G1 \<and> wf_graph G1 \<and> n \<in> set (nodes_of G) \<and>
               nodes_of G1 = removeAll n (nodes_of G) \<and>
               Suc (length (nodes_of G1)) = length (nodes_of G)"
    by (metis)
qed

theorem reduction_terminates_witness:
  "wf_graph [(''A'', [''wg1'']), (''wg1'', [''A'', ''wg2'']), (''wg2'', [''wg1'', ''B'']),
             (''B'', [''wg2''])] \<and>
   reduce_iters 4 [''wg''] [(''A'', [''wg1'']), (''wg1'', [''A'', ''wg2'']),
             (''wg2'', [''wg1'', ''B'']), (''B'', [''wg2''])] =
     Some (Inr [(''A'', [''B'']), (''B'', [''A''])])"
proof -
  let ?G = "[(''A'', [''wg1'']), (''wg1'', [''A'', ''wg2'']), (''wg2'', [''wg1'', ''B'']),
             (''B'', [''wg2''])]"
  have wf: "wf_graph ?G" by code_simp
  have run: "reduce_loop [''wg''] ?G = Some (Inr [(''A'', [''B'']), (''B'', [''A''])])"
    by code_simp
  have len: "length (nodes_of ?G) = 4" by simp
  from reduction_terminates[OF wf, of "[''wg'']"] obtain G' where
    a: "reduce_iters (length (nodes_of ?G)) [''wg''] ?G = Some (Inr G')" and
    b: "reduce_loop [''wg''] ?G = Some (Inr G')" by blast
  from b run have "G' = [(''A'', [''B'']), (''B'', [''A''])]" by simp
  with a wf show ?thesis unfolding len by (simp only:)
qed

text \<open>
  C4.  A chain \<open>A - X - Y - B\<close> of four different nodes (edges \<open>A - X\<close>, \<open>X - Y\<close>
  and \<open>Y - B\<close>, in any order of the nodes and of their neighbours) in which the labels
  \<open>X\<close> and \<open>Y\<close> contain \<open>waveguide\<close> and the labels \<open>A\<close> and \<open>B\<close> do not: the
  reduction loop with the substring \<open>waveguide\<close> ends with a graph of two nodes,
  \<open>A\<close> and \<open>B\<close>, whose only edge joins \<open>A\<close> and \<open>B\<close>.
\<close>

theorem chain_reduction:
  assumes wf: "wf_graph G" and nodes: "set (nodes_of G) = {A, X, Y, B}"
    and neq: "distinct [A, X, Y, B]"
    and adjA: "set (adj G A) = {X}" and adjX: "set (adj G X) = {A, Y}"
    and adjY: "set (adj G Y) = {X, B}" and adjB: "set (adj G B) = {Y}"
    and match: "sublist ''waveguide'' X" "sublist ''waveguide'' Y"
      "\<not> sublist ''waveguide'' A" "\<not> sublist ''waveguide'' B"
  shows "\<exists>G'. reduce_loop [''waveguide''] G = Some (Inr G') \<and>
           set (nodes_of G') = {A, B} \<and> length (nodes_of G') = 2 \<and>
           adj G' A = [B] \<and> adj G' B = [A] \<and>
           set (all_adjacencies G') = {(A, B), (B, A)}"
proof -
  let ?ntr = "[''waveguide'']"
  have degX: "degree_of G X = 2"
    using wf adjX neq by (intro degree_of_pair[of G X A Y]) auto
  have c: "loop_cond ?ntr G"
    unfolding loop_cond_iff[OF wf_distinct_nodes[OF wf]] nodes
    using degX match(1) by (auto simp: removal_condition_def)
  then obtain n d where first: "first_removable ?ntr G = Some (n, d)"
    by (auto simp: loop_cond_iff_first)
  from first_removable_SomeD[OF wf_distinct_nodes[OF wf] first] nodes match(3,4)
  have n: "n = X \<or> n = Y" by (auto simp: removal_condition_def)
  from loop_body_chosen[OF wf first] obtain G1 where
    body: "loop_body ?ntr G = Inr G1" and wf1: "wf_graph G1" and
    nodes1: "nodes_of G1 = removeAll n (nodes_of G)" by blast
  have "\<exists>G'. reduce_loop ?ntr G1 = Some (Inr G') \<and> wf_graph G' \<and>
           set (nodes_of G') = {A, B} \<and> adj G' A = [B] \<and> adj G' B = [A]"
    using n
  proof
    assume nX: "n = X"
    have set1: "set (nodes_of G1) = {A, Y, B}" using nodes neq unfolding nodes1 nX by auto
    have "A \<noteq> Y" using neq by simp
    from distinct_set_pair[OF wf_distinct_adj[OF wf] adjX this]
    have "set (adj G1 A) = {Y} \<and> set (adj G1 Y) = {A, B} \<and> set (adj G1 B) = {Y}"
    proof
      assume ab: "adj G X = [A, Y]"
      show ?thesis
        using neq adjA adjY adjB
        unfolding loop_body_adj_two[OF wf first[unfolded nX] body ab]
        by auto
    next
      assume ab: "adj G X = [Y, A]"
      show ?thesis
        using neq adjA adjY adjB
        unfolding loop_body_adj_two[OF wf first[unfolded nX] body ab]
        by auto
    qed
    then show ?thesis
      using neq match by (intro chain3[OF wf1 set1]) simp_all
  next
    assume nY: "n = Y"
    have set1: "set (nodes_of G1) = {A, X, B}" using nodes neq unfolding nodes1 nY by auto
    have "X \<noteq> B" using neq by simp
    from distinct_set_pair[OF wf_distinct_adj[OF wf] adjY this]
    have "set (adj G1 A) = {X} \<and> set (adj G1 X) = {A, B} \<and> set (adj G1 B) = {X}"
    proof
      assume ab: "adj G Y = [X, B]"
      show ?thesis
        using neq adjA adjX adjB
        unfolding loop_body_adj_two[OF wf first[unfolded nY] body ab]
        by auto
    next
      assume ab: "adj G Y = [B, X]"
      show ?thesis
        using neq adjA adjX adjB
        unfolding loop_body_adj_two[OF wf first[unfolded nY] body ab]
        by auto
    qed
    then show ?thesis
      using neq match by (intro chain3[OF wf1 set1]) simp_all
  qed
  then obtain G' where run1: "reduce_loop ?ntr G1 = Some (Inr G')" and wf': "wf_graph G'"
    and set': "set (nodes_of G') = {A, B}" and adj': "adj G' A = [B]" "adj G' B = [A]"
    by blast
  have run: "reduce_loop ?ntr G = Some (Inr G')"
    using reduce_loop_unfold[OF c body] run1 by simp
  have "card (set (nodes_of G')) = 2" using neq unfolding set' by simp
  then have len: "length (nodes_of G') = 2"
    using distinct_card[OF wf_distinct_nodes[OF wf']] by simp
  have "(u, v) \<in> set (all_adjacencies G') \<longleftrightarrow> (u, v) \<in> {(A, B), (B, A)}" for u v
  proof (cases "u \<in> set (nodes_of G')")
    case True
    then show ?thesis
      using adj' unfolding in_all_adjacencies_wf[OF wf_distinct_nodes[OF wf']] set'
      by auto
  next
    case False
    then have "adj G' u = []" by (rule adj_no_node)
    with False show ?thesis
      unfolding in_all_adjacencies_wf[OF wf_distinct_nodes[OF wf']] set' by auto
  qed
  then have "set (all_adjacencies G') = {(A, B), (B, A)}" by (intro set_eqI) auto
  with run set' len adj' show ?thesis by blast
qed

theorem chain_reduction_witness:
  "wf_graph [(''A'', [''waveguide_X'']), (''waveguide_X'', [''A'', ''waveguide_Y'']),
             (''waveguide_Y'', [''waveguide_X'', ''B'']), (''B'', [''waveguide_Y''])] \<and>
   reduce_loop [''waveguide'']
     [(''A'', [''waveguide_X'']), (''waveguide_X'', [''A'', ''waveguide_Y'']),
      (''waveguide_Y'', [''waveguide_X'', ''B'']), (''B'', [''waveguide_Y''])] =
     Some (Inr [(''A'', [''B'']), (''B'', [''A''])]) \<and>
   adj [(''A'', [''B'']), (''B'', [''A''])] ''A'' = [''B'']"
proof -
  let ?G = "[(''A'', [''waveguide_X'']), (''waveguide_X'', [''A'', ''waveguide_Y'']),
             (''waveguide_Y'', [''waveguide_X'', ''B'']), (''B'', [''waveguide_Y''])]"
  have wf: "wf_graph ?G" by code_simp
  have nodes: "set (nodes_of ?G) = {''A'', ''waveguide_X'', ''waveguide_Y'', ''B''}" by simp
  have neq: "distinct [''A'', ''waveguide_X'', ''waveguide_Y'', ''B'']" by simp
  have adjA: "set (adj ?G ''A'') = {''waveguide_X''}" by (simp add: adj_def)
  have adjX: "set (adj ?G ''waveguide_X'') = {''A'', ''waveguide_Y''}" by (simp add: adj_def)
  have adjY: "set (adj ?G ''waveguide_Y'') = {''waveguide_X'', ''B''}" by (simp add: adj_def)
  have adjB: "set (adj ?G ''B'') = {''waveguide_Y''}" by (simp add: adj_def)
  have match: "sublist ''waveguide'' ''waveguide_X''" "sublist ''waveguide'' ''waveguide_Y''"
    "\<not> sublist ''waveguide'' ''A''" "\<not> sublist ''waveguide'' ''B''"
    by code_simp+
  have run: "reduce_loop [''waveguide''] ?G = Some (Inr [(''A'', [''B'']), (''B'', [''A''])])"
    by code_simp
  from chain_reduction[OF wf nodes neq adjA adjX adjY adjB match] obtain G' where
    "reduce_loop [''waveguide''] ?G = Some (Inr G')" "adj G' ''A'' = [''B'']" by blast
  with run have "adj [(''A'', [''B'']), (''B'', [''A''])] ''A'' = [''B'']" by simp
  with wf run show ?thesis by (simp only: simp_thms)
qed

text \<open>
  C5.  An iteration of the reduction loop removes no node whose label contains none of the
  substrings and no node whose degree, in the graph the iteration starts from, is not 2.
  The loop ends with a graph whose nodes are nodes of the input; every node of the input
  that is missing from it was removed by an iteration in whose graph it had degree 2 and
  a label containing one of the substrings; a node whose label contains none of them is
  in the final graph.  This holds for every order of the nodes, the order being part of
  the graph.
\<close>

theorem non_reduction_guarantee:
  assumes wf: "wf_graph G"
  shows "(\<forall>H H'. iterates ntr G H \<and> loop_cond ntr H \<and> loop_body ntr H = Inr H' \<longrightarrow>
            (\<forall>n \<in> set (nodes_of H).
               \<not> list_ex (\<lambda>e. sublist e n) ntr \<or> degree_of H n \<noteq> 2 \<longrightarrow>
               n \<in> set (nodes_of H'))) \<and>
         (\<exists>G'. reduce_loop ntr G = Some (Inr G') \<and>
            set (nodes_of G') \<subseteq> set (nodes_of G) \<and>
            (\<forall>n \<in> set (nodes_of G). n \<notin> set (nodes_of G') \<longrightarrow>
               (\<exists>H H'. iterates ntr G H \<and> loop_cond ntr H \<and> loop_body ntr H = Inr H' \<and>
                  n \<in> set (nodes_of H) \<and> n \<notin> set (nodes_of H') \<and>
                  degree_of H n = 2 \<and> list_ex (\<lambda>e. sublist e n) ntr)) \<and>
            (\<forall>n \<in> set (nodes_of G).
               \<not> list_ex (\<lambda>e. sublist e n) ntr \<longrightarrow> n \<in> set (nodes_of G')))"
proof (intro conjI allI impI ballI)
  fix H H' n
  assume it: "iterates ntr G H \<and> loop_cond ntr H \<and> loop_body ntr H = Inr H'"
    and n: "n \<in> set (nodes_of H)"
    and keep: "\<not> list_ex (\<lambda>e. sublist e n) ntr \<or> degree_of H n \<noteq> 2"
  have wfH: "wf_graph H" using it wf by (auto intro: iterates_wf)
  from it have c: "loop_cond ntr H" and body: "loop_body ntr H = Inr H'" by simp_all
  from loop_body_nodes[OF wfH c] body obtain m where
    m: "nodes_of H' = removeAll m (nodes_of H)" "removal_condition ntr m (degree_of H m)"
    by auto
  from m(2) keep have "m \<noteq> n" by (auto simp: removal_condition_def)
  with n m(1) show "n \<in> set (nodes_of H')" by simp
next
  from reduce_loop_total[OF wf, of ntr] obtain G' where
    run: "reduce_loop ntr G = Some (Inr G')" and it: "iterates ntr G G'" by blast
  have sub: "set (nodes_of G') \<subseteq> set (nodes_of G)" using it wf by (rule iterates_nodes)
  have gone: "\<exists>H H'. iterates ntr G H \<and> loop_cond ntr H \<and> loop_body ntr H = Inr H' \<and>
        n \<in> set (nodes_of H) \<and> n \<notin> set (nodes_of H') \<and>
        degree_of H n = 2 \<and> list_ex (\<lambda>e. sublist e n) ntr"
    if "n \<in> set (nodes_of G)" "n \<notin> set (nodes_of G')" for n
    using iterates_removed[OF it wf that] by (simp add: removal_condition_def)
  have stay: "n \<in> set (nodes_of G')"
    if "n \<in> set (nodes_of G)" "\<not> list_ex (\<lambda>e. sublist e n) ntr" for n
  proof (rule ccontr)
    assume "n \<notin> set (nodes_of G')"
    from gone[OF that(1) this] that(2) show False by blast
  qed
  from run sub gone stay
  show "\<exists>G'. reduce_loop ntr G = Some (Inr G') \<and>
            set (nodes_of G') \<subseteq> set (nodes_of G) \<and>
            (\<forall>n \<in> set (nodes_of G). n \<notin> set (nodes_of G') \<longrightarrow>
               (\<exists>H H'. iterates ntr G H \<and> loop_cond ntr H \<and> loop_body ntr H = Inr H' \<and>
                  n \<in> set (nodes_of H) \<and> n \<notin> set (nodes_of H') \<and>
                  degree_of H n = 2 \<and> list_ex (\<lambda>e. sublist e n) ntr)) \<and>
            (\<forall>n \<in> set (nodes_of G).
               \<not> list_ex (\<lambda>e. sublist e n) ntr \<longrightarrow> n \<in> set (nodes_of G'))"
    by blast
qed

theorem non_reduction_guarantee_witness:
  "wf_graph [(''A'', [''wg1'']), (''wg1'', [''A'', ''wg2'']), (''wg2'', [''wg1'', ''B'']),
             (''B'', [''wg2''])] \<and>
   ''A'' \<in> set (nodes_of [(''A'', [''wg2'']), (''wg2'', [''B'', ''A'']), (''B'', [''wg2''])]) \<and>
   ''B'' \<in> set (nodes_of [(''A'', [''B'']), (''B'', [''A''])])"
proof -
  let ?G = "[(''A'', [''wg1'']), (''wg1'', [''A'', ''wg2'']), (''wg2'', [''wg1'', ''B'']),
             (''B'', [''wg2''])]"
  let ?H = "[(''A'', [''wg2'']), (''wg2'', [''B'', ''A'']), (''B'', [''wg2''])]"
  have wf: "wf_graph ?G" by code_simp
  have c: "loop_cond [''wg''] ?G" by code_simp
  have body: "loop_body [''wg''] ?G = Inr ?H" by code_simp
  have run: "reduce_loop [''wg''] ?G = Some (Inr [(''A'', [''B'']), (''B'', [''A''])])"
    by code_simp
  have A: "''A'' \<in> set (nodes_of ?G)" "\<not> list_ex (\<lambda>e. sublist e ''A'') [''wg'']"
    by code_simp+
  have B: "''B'' \<in> set (nodes_of ?G)" "\<not> list_ex (\<lambda>e. sublist e ''B'') [''wg'']"
    by code_simp+
  note inst = non_reduction_guarantee[OF wf, of "[''wg'']"]
  have it: "iterates [''wg''] ?G ?G" by (rule iterates_start)
  from inst it c body A have "''A'' \<in> set (nodes_of ?H)" by blast
  moreover from inst run B have "''B'' \<in> set (nodes_of [(''A'', [''B'']), (''B'', [''A''])])"
    by auto
  ultimately show ?thesis using wf by (simp only: simp_thms)
qed

text \<open>
  C6.  If \<open>nodes_to_reduce\<close> is \<open>None\<close> or an empty collection, the reduction phase
  is skipped: it raises nothing and returns the graph of \<open>networkx_from_file\<close> as it is,
  and that graph is the one \<open>plot_nets\<close> plots.
\<close>

theorem empty_filter_skips_reduction:
  assumes "nodes_to_reduce args = None \<or> nodes_to_reduce args = Some []"
    and "networkx_from_file args = Inr G"
  shows "reduction_phase (nodes_to_reduce args) G = Some (Inr G) \<and>
         plot_nets networkx_from_file pyvis args = Some (render pyvis (interactive args) G)"
  using assms by (auto simp: reduction_phase_def plot_nets_def)

theorem empty_filter_skips_reduction_witness:
  "plot_nets (\<lambda>a. Inr [(''wg'', [''wg''])]) (Module_loaded pyvis_returns)
     \<lparr>filepath = ''pads.l2n'', fully_connected = False, interactive = False,
      include_labels = True, only_most_complex = False, nodes_to_reduce = Some []\<rparr> =
   Some (Inr (Figure (8, 6) [(''wg'', [''wg''])] True 2000 ''lightpink'' 12 ''Connectivity''))"
proof -
  let ?args = "\<lparr>filepath = ''pads.l2n'', fully_connected = False, interactive = False,
      include_labels = True, only_most_complex = False, nodes_to_reduce = Some []\<rparr>"
  have a: "nodes_to_reduce ?args = None \<or> nodes_to_reduce ?args = Some []" by simp
  have b: "(\<lambda>a. Inr [(''wg'', [''wg''])]) ?args = (Inr [(''wg'', [''wg''])] :: error + graph)"
    by simp
  from empty_filter_skips_reduction[OF a b, of "Module_loaded pyvis_returns"]
  show ?thesis by (simp add: render_def)
qed

text \<open>
  C7.  With \<open>interactive=True\<close>, when the import of \<open>pyvis\<close> raises
  \<open>ModuleNotFoundError\<close> (and \<open>networkx_from_file\<close> has returned a graph),
  \<open>plot_nets\<close> raises a \<open>UserWarning\<close> whose cause is that
  \<open>ModuleNotFoundError\<close> and whose message names \<open>pyvis\<close> and tells to
  \<open>pip install\<close> it; no other exception is raised.
\<close>

theorem missing_pyvis_warning:
  assumes "interactive args" and "networkx_from_file args = Inr G" and "wf_graph G"
  shows "\<exists>msg. plot_nets networkx_from_file Module_not_found args =
                  Some (Inl (UserWarning msg ModuleNotFoundError)) \<and>
               sublist ''pyvis'' msg \<and> sublist ''pip install'' msg"
proof -
  let ?msg = "''You need to `pip install pyvis<=0.3.1` or `gplugins[klayout]`''"
  from reduction_phase_total[OF assms(3), of "nodes_to_reduce args"] obtain G' where
    "reduction_phase (nodes_to_reduce args) G = Some (Inr G')" by blast
  with assms(1,2) have "plot_nets networkx_from_file Module_not_found args =
      Some (Inl (UserWarning ?msg ModuleNotFoundError))"
    by (simp add: plot_nets_def render_def)
  moreover have "sublist ''pyvis'' ?msg" by code_simp
  moreover have "sublist ''pip install'' ?msg" by code_simp
  ultimately show ?thesis by blast
qed

theorem missing_pyvis_warning_witness:
  "plot_nets (\<lambda>a. Inr [(''A'', [''wg'']), (''wg'', [''A'', ''B'']), (''B'', [''wg''])])
     Module_not_found
     \<lparr>filepath = ''pads.l2n'', fully_connected = False, interactive = True,
      include_labels = True, only_most_complex = False, nodes_to_reduce = Some [''wg'']\<rparr> =
   Some (Inl (UserWarning ''You need to `pip install pyvis<=0.3.1` or `gplugins[klayout]`''
                ModuleNotFoundError))"
proof -
  let ?G = "[(''A'', [''wg'']), (''wg'', [''A'', ''B'']), (''B'', [''wg''])]"
  let ?args = "\<lparr>filepath = ''pads.l2n'', fully_connected = False, interactive = True,
      include_labels = True, only_most_complex = False, nodes_to_reduce = Some [''wg'']\<rparr>"
  have a: "interactive ?args" by simp
  have b: "(\<lambda>a. Inr ?G) ?args = (Inr ?G :: error + graph)" by simp
  have wf: "wf_graph ?G" by code_simp
  have run: "reduce_loop [''wg''] ?G = Some (Inr [(''A'', [''B'']), (''B'', [''A''])])"
    by code_simp
  then have red: "reduction_phase (Some [''wg'']) ?G =
      Some (Inr [(''A'', [''B'']), (''B'', [''A''])])"
    by (simp add: reduction_phase_def)
  have direct: "plot_nets (\<lambda>a. Inr ?G) Module_not_found ?args =
       Some (Inl (UserWarning ''You need to `pip install pyvis<=0.3.1` or `gplugins[klayout]`''
                ModuleNotFoundError))"
    by (simp add: plot_nets_def render_def red)
  from missing_pyvis_warning[OF a b wf] obtain msg where
    m: "plot_nets (\<lambda>a. Inr ?G) Module_not_found ?args =
       Some (Inl (UserWarning msg ModuleNotFoundError))" by blast
  from m direct
  have "msg = ''You need to `pip install pyvis<=0.3.1` or `gplugins[klayout]`''"
    by (simp only: option.inject sum.inject error.inject)
  with m show ?thesis by (simp only:)
qed

text \<open>
  C8.  On the store of graph objects: an iteration of the reduction loop puts its result
  in a newly allocated object and leaves every object that existed before it as it was,
  the graph held by \<open>G_connectivity\<close> included; the new object holds the graph that the
  iteration computes.  The whole loop leaves every object that existed before it as it
  was, so the graph passed in is not changed; when at least one iteration runs, the
  result is an object allocated by the loop.
\<close>

theorem reduction_does_not_mutate:
  assumes "G < length h" and "wf_graph (h ! G)"
  shows "(\<forall>h1 G1. loop_body_obj ntr (h, G) = Inr (h1, G1) \<longrightarrow>
            G1 = length h \<and> length h1 = Suc (length h) \<and>
            (\<forall>a < length h. h1 ! a = h ! a) \<and>
            loop_body ntr (h ! G) = Inr (h1 ! G1)) \<and>
         (\<exists>h' G'. reduce_loop_obj ntr (h, G) = Some (Inr (h', G')) \<and>
            (\<forall>a < length h. h' ! a = h ! a) \<and>
            reduce_loop ntr (h ! G) = Some (Inr (h' ! G')) \<and>
            (loop_cond ntr (h ! G) \<longrightarrow> length h \<le> G'))"
proof -
  have step: "G1 = length h \<and> length h1 = Suc (length h) \<and>
      (\<forall>a < length h. h1 ! a = h ! a) \<and> loop_body ntr (h ! G) = Inr (h1 ! G1)"
    if "loop_body_obj ntr (h, G) = Inr (h1, G1)" for h1 G1
  proof -
    from that obtain G' where body: "loop_body ntr (h ! G) = Inr G'" and h1: "h1 = h @ [G']"
      and G1: "G1 = length h"
      unfolding loop_body_obj_refines[OF assms(1)] by (auto split: sum.splits)
    then show ?thesis by (simp add: nth_append)
  qed
  from reduce_loop_obj_total[OF assms, of ntr]
  have "\<exists>h' G'. reduce_loop_obj ntr (h, G) = Some (Inr (h', G')) \<and>
            (\<forall>a < length h. h' ! a = h ! a) \<and>
            reduce_loop ntr (h ! G) = Some (Inr (h' ! G')) \<and>
            (loop_cond ntr (h ! G) \<longrightarrow> length h \<le> G')"
    by blast
  with step show ?thesis by blast
qed

theorem reduction_does_not_mutate_witness:
  "wf_graph ([[(''A'', [''wg'']), (''wg'', [''A'', ''B'']), (''B'', [''wg''])]] ! 0) \<and>
   reduce_loop_obj [''wg'']
     ([[(''A'', [''wg'']), (''wg'', [''A'', ''B'']), (''B'', [''wg''])]], 0) =
   Some (Inr ([[(''A'', [''wg'']), (''wg'', [''A'', ''B'']), (''B'', [''wg''])],
               [(''A'', [''B'']), (''B'', [''A''])]], 1)) \<and>
   [[(''A'', [''wg'']), (''wg'', [''A'', ''B'']), (''B'', [''wg''])],
    [(''A'', [''B'']), (''B'', [''A''])]] ! 0 =
   [[(''A'', [''wg'']), (''wg'', [''A'', ''B'']), (''B'', [''wg''])]] ! 0"
proof -
  let ?G = "[(''A'', [''wg'']), (''wg'', [''A'', ''B'']), (''B'', [''wg''])]"
  let ?h' = "[?G, [(''A'', [''B'']), (''B'', [''A''])]]"
  have a: "0 < length [?G]" by simp
  have wf: "wf_graph ([?G] ! 0)" by code_simp
  have run: "reduce_loop_obj [''wg''] ([?G], 0) = Some (Inr (?h', 1))" by code_simp
  from reduction_does_not_mutate[OF a wf, of "[''wg'']"] obtain h' G' where
    r: "reduce_loop_obj [''wg''] ([?G], 0) = Some (Inr (h', G'))" and
    f: "\<forall>a < length [?G]. h' ! a = [?G] ! a" by blast
  from r run have "h' = ?h'" by simp
  with f have "?h' ! 0 = [?G] ! 0" by simp
  with wf run show ?thesis by (simp only: simp_thms)
qed

text \<open>
  C9, as amended.  With \<open>interactive=True\<close>, when \<open>pyvis\<close> is imported (and
  \<open>networkx_from_file\<close> has returned a graph): if the four calls of \<open>pyvis\<close> return,
  \<open>plot_nets\<close> has shown the reduced graph, with \<open>select_menu\<close> and \<open>filter_menu\<close>
  switched on, in the file \<open>connectivity.html\<close>; the name has no directory part, so
  that the file is written to the working directory.  If one of the calls raises,
  \<open>plot_nets\<close> ends with the exception of the first call that does, and no page is
  shown.  Whatever the arguments of \<open>plot_nets\<close> and the behaviour of \<open>pyvis\<close>, a page
  that is shown is this one: the file name is always \<open>connectivity.html\<close>.
\<close>

theorem interactive_output_file:
  assumes "interactive args" and "networkx_from_file args = Inr G" and "wf_graph G"
  shows "\<exists>G'. reduction_phase (nodes_to_reduce args) G = Some (Inr G') \<and>
           (Network_call net True True = None \<and> show_buttons_call net = None \<and>
            from_nx_call net G' = None \<and> show_call net G' ''connectivity.html'' = None \<longrightarrow>
              plot_nets networkx_from_file (Module_loaded net) args =
                Some (Inr (Html_page ''connectivity.html'' True True True G'))) \<and>
           (\<forall>e. Network_call net True True = Some e \<longrightarrow>
              plot_nets networkx_from_file (Module_loaded net) args = Some (Inl e)) \<and>
           (\<forall>e. Network_call net True True = None \<and> show_buttons_call net = Some e \<longrightarrow>
              plot_nets networkx_from_file (Module_loaded net) args = Some (Inl e)) \<and>
           (\<forall>e. Network_call net True True = None \<and> show_buttons_call net = None \<and>
                from_nx_call net G' = Some e \<longrightarrow>
              plot_nets networkx_from_file (Module_loaded net) args = Some (Inl e)) \<and>
           (\<forall>e. Network_call net True True = None \<and> show_buttons_call net = None \<and>
                from_nx_call net G' = None \<and> show_call net G' ''connectivity.html'' = Some e \<longrightarrow>
              plot_nets networkx_from_file (Module_loaded net) args = Some (Inl e)) \<and>
           (\<forall>d. plot_nets networkx_from_file (Module_loaded net) args = Some (Inr d) \<longrightarrow>
              d = Html_page ''connectivity.html'' True True True G') \<and>
           CHR ''/'' \<notin> set ''connectivity.html''"
proof -
  from reduction_phase_total[OF assms(3), of "nodes_to_reduce args"] obtain G' where
    r: "reduction_phase (nodes_to_reduce args) G = Some (Inr G')" by blast
  have p: "plot_nets networkx_from_file (Module_loaded net) args =
      Some (render (Module_loaded net) True G')"
    using assms(1,2) r by (simp add: plot_nets_def)
  have ok: "render (Module_loaded net) True G' =
      Inr (Html_page ''connectivity.html'' True True True G')"
    if "Network_call net True True = None \<and> show_buttons_call net = None \<and>
        from_nx_call net G' = None \<and> show_call net G' ''connectivity.html'' = None"
    using that by (simp add: render_def)
  have e1: "render (Module_loaded net) True G' = Inl e"
    if "Network_call net True True = Some e" for e
    using that by (simp add: render_def)
  have e2: "render (Module_loaded net) True G' = Inl e"
    if "Network_call net True True = None \<and> show_buttons_call net = Some e" for e
    using that by (simp add: render_def)
  have e3: "render (Module_loaded net) True G' = Inl e"
    if "Network_call net True True = None \<and> show_buttons_call net = None \<and>
        from_nx_call net G' = Some e" for e
    using that by (simp add: render_def)
  have e4: "render (Module_loaded net) True G' = Inl e"
    if "Network_call net True True = None \<and> show_buttons_call net = None \<and>
        from_nx_call net G' = None \<and> show_call net G' ''connectivity.html'' = Some e" for e
    using that by (simp add: render_def)
  have only: "d = Html_page ''connectivity.html'' True True True G'"
    if "render (Module_loaded net) True G' = Inr d" for d
    using that by (simp add: render_def split: option.splits)
  have name: "CHR ''/'' \<notin> set ''connectivity.html''" by simp
  show ?thesis
    unfolding p
  proof (intro exI[of _ G'] conjI allI impI)
    show "reduction_phase (nodes_to_reduce args) G = Some (Inr G')" by (rule r)
    show "CHR ''/'' \<notin> set ''connectivity.html''" by (rule name)
  qed (simp_all only: ok e1 e2 e3 e4 only option.inject)
qed

theorem interactive_output_file_witness:
  "plot_nets (\<lambda>a. Inr [(''A'', [''wg'']), (''wg'', [''A'', ''B'']), (''B'', [''wg''])])
     (Module_loaded pyvis_returns)
     \<lparr>filepath = ''pads.l2n'', fully_connected = False, interactive = True,
      include_labels = True, only_most_complex = False, nodes_to_reduce = Some [''wg'']\<rparr> =
   Some (Inr (Html_page ''connectivity.html'' True True True
                [(''A'', [''B'']), (''B'', [''A''])]))"
proof -
  let ?G = "[(''A'', [''wg'']), (''wg'', [''A'', ''B'']), (''B'', [''wg''])]"
  let ?args = "\<lparr>filepath = ''pads.l2n'', fully_connected = False, interactive = True,
      include_labels = True, only_most_complex = False, nodes_to_reduce = Some [''wg'']\<rparr>"
  have a: "interactive ?args" by simp
  have b: "(\<lambda>a. Inr ?G) ?args = (Inr ?G :: error + graph)" by simp
  have wf: "wf_graph ?G" by code_simp
  have run: "reduce_loop [''wg''] ?G = Some (Inr [(''A'', [''B'']), (''B'', [''A''])])"
    by code_simp
  then have red: "reduction_phase (nodes_to_reduce ?args) ?G =
      Some (Inr [(''A'', [''B'']), (''B'', [''A''])])"
    by (simp add: reduction_phase_def)
  from interactive_output_file[OF a b wf, of pyvis_returns] obtain G' where
    g: "reduction_phase (nodes_to_reduce ?args) ?G = Some (Inr G')" and
    page: "Network_call pyvis_returns True True = None \<and> show_buttons_call pyvis_returns = None \<and>
       from_nx_call pyvis_returns G' = None \<and>
       show_call pyvis_returns G' ''connectivity.html'' = None \<longrightarrow>
       plot_nets (\<lambda>a. Inr ?G) (Module_loaded pyvis_returns) ?args =
         Some (Inr (Html_page ''connectivity.html'' True True True G'))" by blast
  from g red have "G' = [(''A'', [''B'']), (''B'', [''A''])]" by simp
  moreover have "Network_call pyvis_returns True True = None \<and>
       show_buttons_call pyvis_returns = None \<and> from_nx_call pyvis_returns G' = None \<and>
       show_call pyvis_returns G' ''connectivity.html'' = None"
    by (simp add: pyvis_returns_def)
  ultimately show ?thesis using page by simp
qed

text \<open>
  C9 as the specification states it fails for a \<open>pyvis\<close> that is imported and whose
  \<open>show\<close> raises: with \<open>interactive=True\<close> and a graph from \<open>networkx_from_file\<close>,
  \<open>plot_nets\<close> ends with that exception, and no \<open>connectivity.html\<close> has been written.
\<close>

theorem interactive_output_counterexample:
  "interactive
     \<lparr>filepath = ''pads.l2n'', fully_connected = False, interactive = True,
      include_labels = True, only_most_complex = False, nodes_to_reduce = None\<rparr> \<and>
   wf_graph [(''A'', [''B'']), (''B'', [''A''])] \<and>
   plot_nets (reader_returning [(''A'', [''B'']), (''B'', [''A''])])
     (Module_loaded (pyvis_show_raises (CollaboratorError ''AttributeError'')))
     \<lparr>filepath = ''pads.l2n'', fully_connected = False, interactive = True,
      include_labels = True, only_most_complex = False, nodes_to_reduce = None\<rparr> =
   Some (Inl (CollaboratorError ''AttributeError''))"
proof (intro conjI)
  show "interactive
     \<lparr>filepath = ''pads.l2n'', fully_connected = False, interactive = True,
      include_labels = True, only_most_complex = False, nodes_to_reduce = None\<rparr>" by simp
  show "wf_graph [(''A'', [''B'']), (''B'', [''A''])]" by code_simp
  show "plot_nets (reader_returning [(''A'', [''B'']), (''B'', [''A''])])
     (Module_loaded (pyvis_show_raises (CollaboratorError ''AttributeError'')))
     \<lparr>filepath = ''pads.l2n'', fully_connected = False, interactive = True,
      include_labels = True, only_most_complex = False, nodes_to_reduce = None\<rparr> =
   Some (Inl (CollaboratorError ''AttributeError''))"
    by (simp add: plot_nets_def reader_returning_def reduction_phase_def render_def
        pyvis_show_raises_def)
qed

text \<open>
  C10.  The reduction loop never introduces a self-loop.  At the node \<open>n\<close> where an
  iteration stops, every pair of \<open>node_pairs_to_connect\<close> joins two distinct nodes; if
  \<open>n\<close> carries a self-loop (its degree 2 is that self-loop alone) there is no pair at
  all, and the iteration only removes \<open>n\<close>, the neighbours of every other node staying
  as they were.  So the nodes with a self-loop after an iteration are among those before
  it, and those of the graph the loop ends with are among those of the graph it started
  with.
\<close>

theorem no_new_self_loops:
  assumes wf: "wf_graph G"
  shows "(\<forall>n d. first_removable ntr G = Some (n, d) \<longrightarrow>
            (\<exists>G1. (\<forall>(a, b) \<in> set (node_pairs_to_connect G n). a \<noteq> b) \<and>
               loop_body ntr G = Inr G1 \<and>
               (n \<in> set (adj G n) \<longrightarrow>
                  node_pairs_to_connect G n = [] \<and> nodes_of G1 = removeAll n (nodes_of G) \<and>
                  (\<forall>m. m \<noteq> n \<longrightarrow> set (adj G1 m) = set (adj G m))))) \<and>
         (\<forall>G1. loop_body ntr G = Inr G1 \<longrightarrow> set (self_loops G1) \<subseteq> set (self_loops G)) \<and>
         (\<exists>G'. reduce_loop ntr G = Some (Inr G') \<and> set (self_loops G') \<subseteq> set (self_loops G))"
proof (intro conjI allI impI)
  fix n d assume first: "first_removable ntr G = Some (n, d)"
  let ?ps = "combinations2 (adj G n)"
  have n: "n \<in> set (nodes_of G)"
    using first_removable_SomeD(1)[OF wf_distinct_nodes[OF wf] first] .
  have ps: "node_pairs_to_connect G n = ?ps" by (rule node_pairs_of_node)
  have dist: "\<forall>(a, b) \<in> set ?ps. a \<noteq> b"
    using combinations2_distinct[OF wf_distinct_adj[OF wf, of n]] by auto
  from loop_body_chosen[OF wf first] obtain G1 where
    body: "loop_body ntr G = Inr G1" and
    nodes1: "nodes_of G1 = removeAll n (nodes_of G)" by blast
  have self: "?ps = [] \<and> nodes_of G1 = removeAll n (nodes_of G) \<and>
      (\<forall>m. m \<noteq> n \<longrightarrow> set (adj G1 m) = set (adj G m))" if "n \<in> set (adj G n)"
  proof -
    from first_removable_cases[OF wf first] that have single: "adj G n = [n]" by auto
    then have "?ps = []" by simp
    with nodes1 loop_body_adj_self[OF wf first body single] show ?thesis by simp
  qed
  from ps dist body self
  show "\<exists>G1. (\<forall>(a, b) \<in> set (node_pairs_to_connect G n). a \<noteq> b) \<and>
               loop_body ntr G = Inr G1 \<and>
               (n \<in> set (adj G n) \<longrightarrow>
                  node_pairs_to_connect G n = [] \<and> nodes_of G1 = removeAll n (nodes_of G) \<and>
                  (\<forall>m. m \<noteq> n \<longrightarrow> set (adj G1 m) = set (adj G m)))"
    unfolding ps by blast
next
  fix G1 assume "loop_body ntr G = Inr G1"
  with wf show "set (self_loops G1) \<subseteq> set (self_loops G)" by (rule loop_body_self_loops)
next
  from reduce_loop_total[OF wf, of ntr] obtain G' where
    "reduce_loop ntr G = Some (Inr G')" "iterates ntr G G'" by blast
  with iterates_self_loops[OF _ wf]
  show "\<exists>G'. reduce_loop ntr G = Some (Inr G') \<and> set (self_loops G') \<subseteq> set (self_loops G)"
    by blast
qed

theorem no_new_self_loops_witness:
  "wf_graph [(''wg'', [''wg'']), (''A'', [''B'']), (''B'', [''A''])] \<and>
   first_removable [''wg''] [(''wg'', [''wg'']), (''A'', [''B'']), (''B'', [''A''])] =
     Some (''wg'', 2) \<and>
   node_pairs_to_connect [(''wg'', [''wg'']), (''A'', [''B'']), (''B'', [''A''])] ''wg'' =
     [] \<and>
   set (self_loops [(''A'', [''B'']), (''B'', [''A''])]) \<subseteq>
     set (self_loops [(''wg'', [''wg'']), (''A'', [''B'']), (''B'', [''A''])])"
proof -
  let ?G = "[(''wg'', [''wg'']), (''A'', [''B'']), (''B'', [''A''])]"
  have wf: "wf_graph ?G" by code_simp
  have first: "first_removable [''wg''] ?G = Some (''wg'', 2)" by code_simp
  have self: "''wg'' \<in> set (adj ?G ''wg'')" by code_simp
  have run: "reduce_loop [''wg''] ?G = Some (Inr [(''A'', [''B'']), (''B'', [''A''])])"
    by code_simp
  note inst = no_new_self_loops[OF wf, of "[''wg'']"]
  from inst first self have "node_pairs_to_connect ?G ''wg'' = []" by blast
  moreover from inst run
  have "set (self_loops [(''A'', [''B'']), (''B'', [''A''])]) \<subseteq> set (self_loops ?G)"
    by auto
  ultimately show ?thesis using wf first by (simp only: simp_thms)
qed

end
